theory Spec2Isabelle
  imports Complex_Main "HOL-Library.Monad_Syntax"
begin

section \<open>Ring all-to-all personalized exchange (alltoall\_personalized.c)\<close>

text \<open>
  A shallow embedding of \<^verbatim>\<open>compact_array\<close> and \<^verbatim>\<open>all_to_all_personalized\<close>.

  Conventions.
  \<^item> A C \<^verbatim>\<open>int\<close> that holds a rank, a count or an index is an \<open>int\<close>. Every such
    expression of the engine lies between \<open>0\<close> and \<open>2 * num_proc\<close> when
    \<open>0 \<le> rank < num_proc\<close> (lemma \<open>rank_arith_range\<close>), so the arithmetic is the
    machine's as long as \<open>2 * num_proc\<close> fits an \<^verbatim>\<open>int\<close>.
  \<^item> A C array is a list of its cells. An access outside the cells is undefined behaviour
    in C; here it is the result \<open>None\<close>.
  \<^item> The element values are only copied, never computed with; they are \<open>int\<close>.
  \<^item> \<^verbatim>\<open>MPI_Wtime\<close> is an oracle \<open>wtime :: nat \<Rightarrow> real\<close>: the \<open>k\<close>-th call made by a
    process returns \<open>wtime k\<close>; the state counts the calls made so far.
  \<^item> \<^verbatim>\<open>print_msg\<close> only writes to the console and is left out.
\<close>

subsection \<open>C arithmetic and arrays\<close>

text \<open>
  C99 division truncates towards zero and \<^verbatim>\<open>a % b\<close> is \<^verbatim>\<open>a - (a / b) * b\<close>. The engine
  divides by \<^verbatim>\<open>num_proc\<close> only inside the loop of the rounds, where \<open>1 \<le> i < num_proc\<close>, so
  never by zero.
\<close>

definition c_div :: "int \<Rightarrow> int \<Rightarrow> int" where
  "c_div a b = (if (a < 0) = (b < 0) then \<bar>a\<bar> div \<bar>b\<bar> else - (\<bar>a\<bar> div \<bar>b\<bar>))"

definition c_mod :: "int \<Rightarrow> int \<Rightarrow> int" where
  "c_mod a b = a - c_div a b * b"

definition arr_read :: "'a list \<Rightarrow> int \<Rightarrow> 'a option" where
  "arr_read arr i = (if 0 \<le> i \<and> i < int (length arr) then Some (arr ! nat i) else None)"

definition arr_write :: "'a list \<Rightarrow> int \<Rightarrow> 'a \<Rightarrow> 'a list option" where
  "arr_write arr i v = (if 0 \<le> i \<and> i < int (length arr) then Some (arr[nat i := v]) else None)"

subsection \<open>compact\_array\<close>

text \<open>
  \<^verbatim>\<open>for(int i = idx + 1; i < size; i++) { arr[i-1] = arr[i]; }\<close>
\<close>

function compact_loop :: "int \<Rightarrow> int list \<Rightarrow> int \<Rightarrow> int list option" where
  "compact_loop i arr sz =
     (if i < sz then
        do { v \<leftarrow> arr_read arr i;
             arr' \<leftarrow> arr_write arr (i - 1) v;
             compact_loop (i + 1) arr' sz }
      else Some arr)"
  by pat_completeness auto
termination
  by (relation "measure (\<lambda>(i, arr, sz). nat (sz - i))") auto

declare compact_loop.simps [simp del]

definition compact_array :: "int \<Rightarrow> int list \<Rightarrow> int \<Rightarrow> int list option" where
  "compact_array idx arr sz = compact_loop (idx + 1) arr sz"

subsection \<open>The state of one process\<close>

text \<open>
  The local variables of \<^verbatim>\<open>all_to_all_personalized\<close> that live across rounds, and the
  caller's result array. Two fields are bookkeeping of the model: \<open>res_writes\<close> lists the
  indices of \<^verbatim>\<open>res_arr\<close> that were assigned, in the order of the assignments, and
  \<open>ticks\<close> counts the calls of \<^verbatim>\<open>MPI_Wtime\<close> made so far.
\<close>

record proc =
  buf :: "int list"
  res_arr :: "int list"
  res_writes :: "int list"
  time_taken :: real
  ticks :: nat

subsection \<open>Creating the first message (lines 81--90)\<close>

text \<open>
  \<^verbatim>\<open>for(int i = 0, j = 0; i < num_proc; i++) {
      if(i < rank) buf[i] = msg_arr[i];
      else if(i == rank) continue;
      else buf[i-1] = msg_arr[i]; }\<close>
\<close>

function first_message :: "int list \<Rightarrow> int \<Rightarrow> int \<Rightarrow> int \<Rightarrow> int list \<Rightarrow> int list option" where
  "first_message msg_arr rank num_proc i b =
     (if i < num_proc then
        (if i < rank then
           do { v \<leftarrow> arr_read msg_arr i;
                b' \<leftarrow> arr_write b i v;
                first_message msg_arr rank num_proc (i + 1) b' }
         else if i = rank then first_message msg_arr rank num_proc (i + 1) b
         else
           do { v \<leftarrow> arr_read msg_arr i;
                b' \<leftarrow> arr_write b (i - 1) v;
                first_message msg_arr rank num_proc (i + 1) b' })
      else Some b)"
  by pat_completeness auto
termination
  by (relation "measure (\<lambda>(msg_arr, rank, num_proc, i, b). nat (num_proc - i))") auto

declare first_message.simps [simp del]

text \<open>
  Lines 76--92. \<open>buf0\<close> is the indeterminate content of the fresh array
  \<^verbatim>\<open>int buf[num_proc - 1]\<close>, \<open>res0\<close> the content of the caller's \<^verbatim>\<open>res_arr\<close> on entry.
\<close>

definition a2a_init :: "(nat \<Rightarrow> real) \<Rightarrow> int list \<Rightarrow> int list \<Rightarrow> int list \<Rightarrow> int \<Rightarrow> int \<Rightarrow> proc option" where
  "a2a_init wtime msg_arr res0 buf0 rank num_proc =
     (if int (length buf0) \<noteq> num_proc - 1 then None
      else
        do { b \<leftarrow> first_message msg_arr rank num_proc 0 buf0;
             v \<leftarrow> arr_read msg_arr rank;
             r \<leftarrow> arr_write res0 rank v;
             Some \<lparr>buf = b, res_arr = r, res_writes = [rank],
                   time_taken = wtime 0, ticks = 1\<rparr> })"

subsection \<open>The transport\<close>

text \<open>
  \<^verbatim>\<open>MPI_Send(buf, count, ...)\<close> hands over the first \<open>count\<close> cells of the array;
  \<^verbatim>\<open>MPI_Recv(buf, count, ...)\<close> stores a message of at most \<open>count\<close> elements into the first
  cells of the array and leaves the other cells as they were.
\<close>

definition mpi_send :: "int list \<Rightarrow> int \<Rightarrow> int list option" where
  "mpi_send b count =
     (if 0 \<le> count \<and> count \<le> int (length b) then Some (take (nat count) b) else None)"

definition mpi_recv :: "int list \<Rightarrow> int \<Rightarrow> int list \<Rightarrow> int list option" where
  "mpi_recv b count m =
     (if 0 \<le> count \<and> count \<le> int (length b) \<and> int (length m) \<le> count
      then Some (m @ drop (length m) b) else None)"

subsection \<open>One round (lines 95--122)\<close>

definition send_to :: "int \<Rightarrow> int \<Rightarrow> int" where
  "send_to rank num_proc = c_mod (rank + 1) num_proc"

definition recv_from :: "int \<Rightarrow> int \<Rightarrow> int" where
  "recv_from rank num_proc = c_mod (rank + num_proc - 1) num_proc"

definition msg_size :: "int \<Rightarrow> int \<Rightarrow> int" where
  "msg_size num_proc i = num_proc - i"

definition origin :: "int \<Rightarrow> int \<Rightarrow> int \<Rightarrow> int" where
  "origin rank num_proc i = c_mod (num_proc + rank - i) num_proc"

definition data_index :: "int \<Rightarrow> int \<Rightarrow> int \<Rightarrow> int" where
  "data_index rank num_proc i =
     (if origin rank num_proc i \<le> rank then origin rank num_proc i else 0)"

text \<open>Lines 95--101: the send, and the first update of \<^verbatim>\<open>time_taken\<close>.\<close>

definition round_send :: "(nat \<Rightarrow> real) \<Rightarrow> int \<Rightarrow> int \<Rightarrow> int \<Rightarrow> proc \<Rightarrow> (int list \<times> proc) option" where
  "round_send wtime rank num_proc i st =
     do { payload \<leftarrow> mpi_send (buf st) (msg_size num_proc i);
          let disp_time = wtime (ticks st);
          Some (payload, st\<lparr>time_taken := disp_time - time_taken st, ticks := ticks st + 1\<rparr>) }"

text \<open>Lines 105--119: the receive of the message \<open>m\<close>, the extraction and the compaction.\<close>

definition round_recv :: "(nat \<Rightarrow> real) \<Rightarrow> int \<Rightarrow> int \<Rightarrow> int \<Rightarrow> int list \<Rightarrow> proc \<Rightarrow> proc option" where
  "round_recv wtime rank num_proc i m st =
     do { let disp_time = wtime (ticks st);
          b \<leftarrow> mpi_recv (buf st) (msg_size num_proc i) m;
          let disp_time = wtime (ticks st + 1) - disp_time;
          v \<leftarrow> arr_read b (data_index rank num_proc i);
          r \<leftarrow> arr_write (res_arr st) (origin rank num_proc i) v;
          b' \<leftarrow> compact_array (data_index rank num_proc i) b (msg_size num_proc i);
          Some (st\<lparr>buf := b', res_arr := r,
                   res_writes := res_writes st @ [origin rank num_proc i],
                   time_taken := time_taken st + disp_time, ticks := ticks st + 2\<rparr>) }"

subsection \<open>all\_to\_all\_personalized, one process\<close>

text \<open>
  The loop \<^verbatim>\<open>for(int i = 1; i < num_proc; i++)\<close>. \<open>inbox\<close> lists the messages that the
  transport delivers to this process, one for each receive; a receive that no message
  answers blocks for ever, which is the result \<open>None\<close>. The result is the final state
  together with the messages sent, in order.
\<close>

function a2a_rounds :: "(nat \<Rightarrow> real) \<Rightarrow> int \<Rightarrow> int \<Rightarrow> int \<Rightarrow> int list list \<Rightarrow> proc \<Rightarrow> (proc \<times> int list list) option" where
  "a2a_rounds wtime rank num_proc i inbox st =
     (if i < num_proc then
        (case inbox of
           [] \<Rightarrow> None
         | m # ms \<Rightarrow>
             do { (payload, st1) \<leftarrow> round_send wtime rank num_proc i st;
                  st2 \<leftarrow> round_recv wtime rank num_proc i m st1;
                  (st3, out) \<leftarrow> a2a_rounds wtime rank num_proc (i + 1) ms st2;
                  Some (st3, payload # out) })
      else Some (st, []))"
  by pat_completeness auto
termination
  by (relation "measure (\<lambda>(wtime, rank, num_proc, i, inbox, st). nat (num_proc - i))") auto

declare a2a_rounds.simps [simp del]

definition all_to_all_personalized :: "(nat \<Rightarrow> real) \<Rightarrow> int list \<Rightarrow> int list \<Rightarrow> int list \<Rightarrow> int \<Rightarrow> int \<Rightarrow> int list list \<Rightarrow> (proc \<times> int list list) option" where
  "all_to_all_personalized wtime msg_arr res0 buf0 rank num_proc inbox =
     do { st \<leftarrow> a2a_init wtime msg_arr res0 buf0 rank num_proc;
          a2a_rounds wtime rank num_proc 1 inbox st }"

subsection \<open>The ring of processes\<close>

text \<open>
  \<open>N\<close> processes, the process of rank \<open>p\<close> at position \<open>p\<close> of the list. The transport is
  reliable and keeps the order of the messages between two neighbours, and every process
  sends one message to its successor and receives one from its predecessor in each round:
  the receive of round \<open>i\<close> at \<open>p\<close> gets what \<open>recv_from p\<close> sent in its round \<open>i\<close>.
  \<open>clk p\<close> is the clock of process \<open>p\<close>.
\<close>

definition ring_init :: "(nat \<Rightarrow> nat \<Rightarrow> real) \<Rightarrow> int list list \<Rightarrow> int list list \<Rightarrow> int list list \<Rightarrow> nat \<Rightarrow> proc list option" where
  "ring_init clk msgs ress bufs N =
     those (map (\<lambda>p. a2a_init (clk p) (msgs ! p) (ress ! p) (bufs ! p) (int p) (int N)) [0..<N])"

definition ring_round :: "(nat \<Rightarrow> nat \<Rightarrow> real) \<Rightarrow> nat \<Rightarrow> nat \<Rightarrow> proc list \<Rightarrow> proc list option" where
  "ring_round clk N i sts =
     do { sent \<leftarrow> those (map (\<lambda>p. round_send (clk p) (int p) (int N) (int i) (sts ! p)) [0..<N]);
          those (map (\<lambda>p. round_recv (clk p) (int p) (int N) (int i)
                            (fst (sent ! nat (recv_from (int p) (int N)))) (snd (sent ! p)))
                  [0..<N]) }"

text \<open>The ring after the rounds \<open>1, \<dots>, k\<close>; all rounds are done when \<open>k = N - 1\<close>.\<close>

fun ring_after :: "(nat \<Rightarrow> nat \<Rightarrow> real) \<Rightarrow> nat \<Rightarrow> nat \<Rightarrow> proc list \<Rightarrow> proc list option" where
  "ring_after clk N 0 sts = Some sts"
| "ring_after clk N (Suc k) sts =
     do { sts' \<leftarrow> ring_after clk N k sts; ring_round clk N (Suc k) sts' }"

text \<open>
  The ring that started from the message vectors \<open>msgs\<close>, observed after \<open>k\<close> rounds (at the
  start of round \<open>k + 1\<close>), and the whole exchange.
\<close>

definition ring_run :: "(nat \<Rightarrow> nat \<Rightarrow> real) \<Rightarrow> int list list \<Rightarrow> int list list \<Rightarrow> int list list \<Rightarrow> nat \<Rightarrow> nat \<Rightarrow> proc list option" where
  "ring_run clk msgs ress bufs N k =
     do { sts \<leftarrow> ring_init clk msgs ress bufs N; ring_after clk N k sts }"

definition ring_exchange :: "(nat \<Rightarrow> nat \<Rightarrow> real) \<Rightarrow> int list list \<Rightarrow> int list list \<Rightarrow> int list list \<Rightarrow> nat \<Rightarrow> proc list option" where
  "ring_exchange clk msgs ress bufs N = ring_run clk msgs ress bufs N (N - 1)"

text \<open>
  What the transport delivers to the process \<open>p\<close> in round \<open>i\<close>: the message that its
  predecessor sends in that round; and the messages delivered to \<open>p\<close> over all rounds.
\<close>

definition ring_deliver :: "(nat \<Rightarrow> nat \<Rightarrow> real) \<Rightarrow> int list list \<Rightarrow> int list list \<Rightarrow> int list list \<Rightarrow> nat \<Rightarrow> nat \<Rightarrow> nat \<Rightarrow> int list" where
  "ring_deliver clk msgs ress bufs N p i =
     (case ring_run clk msgs ress bufs N (i - 1) of
        None \<Rightarrow> []
      | Some sts \<Rightarrow>
          (case mpi_send (buf (sts ! nat (recv_from (int p) (int N)))) (msg_size (int N) (int i)) of
             None \<Rightarrow> [] | Some m \<Rightarrow> m))"

definition ring_inbox :: "(nat \<Rightarrow> nat \<Rightarrow> real) \<Rightarrow> int list list \<Rightarrow> int list list \<Rightarrow> int list list \<Rightarrow> nat \<Rightarrow> nat \<Rightarrow> int list list" where
  "ring_inbox clk msgs ress bufs N p = map (ring_deliver clk msgs ress bufs N p) [1..<N]"

subsection \<open>A run of the clock\<close>

text \<open>
  Seven successive readings of \<^verbatim>\<open>MPI_Wtime\<close>, in seconds, for a process of a ring of three:
  on entry, then after the send, before the receive and after the receive of each of the two
  rounds. The call lasts 9 seconds.
\<close>

definition example_clock :: "nat \<Rightarrow> real" where
  "example_clock k = [100, 101, 103, 104, 106, 108, 109] ! k"

subsection \<open>Closed forms used in the proofs\<close>

text \<open>
  The array after the loop of \<open>compact_array\<close> has run from cell \<open>j\<close> over the first \<open>n\<close>
  cells, and the buffer after the loop of \<open>first_message\<close> has run from index \<open>i\<close>.
\<close>

definition shift_left :: "nat \<Rightarrow> nat \<Rightarrow> 'a list \<Rightarrow> 'a list" where
  "shift_left j n arr =
     map (\<lambda>k. if j \<le> k \<and> Suc k < n then arr ! Suc k else arr ! k) [0..<length arr]"

definition fill_from :: "nat \<Rightarrow> nat \<Rightarrow> 'a list \<Rightarrow> 'a list \<Rightarrow> 'a list" where
  "fill_from r i msg b =
     map (\<lambda>k. if i \<le> k \<and> k < r then msg ! k
              else if i \<le> Suc k \<and> r \<le> k then msg ! Suc k else b ! k) [0..<length b]"

text \<open>
  The destinations, in increasing order, of the values that left the rank \<open>ori\<close> and are now
  in the buffer of the rank \<open>h\<close>: all ranks but those from \<open>ori\<close> to \<open>h\<close> along the ring.
\<close>

definition dests :: "nat \<Rightarrow> nat \<Rightarrow> nat \<Rightarrow> nat list" where
  "dests N ori h = (if ori \<le> h then [0..<ori] @ [Suc h..<N] else [Suc h..<ori])"

text \<open>
  The state of the ring after \<open>k\<close> rounds: the process \<open>p\<close> holds, in the first \<open>N - 1 - k\<close>
  cells of its buffer, the values of the rank \<open>(N + p - k) mod N\<close> that are still on their
  way, and it has stored the values of the ranks \<open>(N + p - j) mod N\<close> for \<open>j \<le> k\<close>.
\<close>

definition ring_inv :: "int list list \<Rightarrow> nat \<Rightarrow> nat \<Rightarrow> proc list \<Rightarrow> bool" where
  "ring_inv msgs N k sts \<longleftrightarrow>
     length sts = N \<and>
     (\<forall>p<N. length (buf (sts ! p)) = N - 1 \<and> length (res_arr (sts ! p)) = N \<and>
        take (N - 1 - k) (buf (sts ! p))
          = map (\<lambda>d. msgs ! ((N + p - k) mod N) ! d) (dests N ((N + p - k) mod N) p) \<and>
        (\<forall>j\<le>k. res_arr (sts ! p) ! ((N + p - j) mod N) = msgs ! ((N + p - j) mod N) ! p) \<and>
        res_writes (sts ! p) = map (\<lambda>j. int ((N + p - j) mod N)) [0..<Suc k])"

text \<open>The index of line 113 on natural numbers.\<close>

definition dindex :: "nat \<Rightarrow> nat \<Rightarrow> nat \<Rightarrow> nat" where
  "dindex p N i = (if (N + p - i) mod N \<le> p then (N + p - i) mod N else 0)"

section \<open>Properties\<close>

lemma c_mod_nonneg: "0 \<le> a \<Longrightarrow> 0 < b \<Longrightarrow> c_mod a b = a mod b"
  by (simp add: c_mod_def c_div_def minus_div_mult_eq_mod)

subsection \<open>compact\_array\<close>

lemma length_shift_left [simp]: "length (shift_left j n arr) = length arr"
  by (simp add: shift_left_def)

lemma nth_shift_left:
  "k < length arr \<Longrightarrow>
   shift_left j n arr ! k = (if j \<le> k \<and> Suc k < n then arr ! Suc k else arr ! k)"
  by (simp add: shift_left_def)

lemma shift_left_step:
  assumes "Suc j < n" "n \<le> length arr"
  shows "shift_left (Suc j) n (arr[j := arr ! Suc j]) = shift_left j n arr"
proof (rule nth_equalityI)
  show "length (shift_left (Suc j) n (arr[j := arr ! Suc j])) = length (shift_left j n arr)"
    by simp
next
  fix k assume "k < length (shift_left (Suc j) n (arr[j := arr ! Suc j]))"
  then have k: "k < length arr" by simp
  show "shift_left (Suc j) n (arr[j := arr ! Suc j]) ! k = shift_left j n arr ! k"
    using k assms by (auto simp: nth_shift_left nth_list_update)
qed

lemma shift_left_id: "n \<le> Suc j \<Longrightarrow> shift_left j n arr = arr"
  by (rule nth_equalityI) (auto simp: nth_shift_left)

lemma compact_loop_shift:
  "1 \<le> i \<Longrightarrow> i \<le> sz \<Longrightarrow> sz \<le> int (length arr) \<Longrightarrow>
   compact_loop i arr sz = Some (shift_left (nat i - 1) (nat sz) arr)"
proof (induction i arr sz rule: compact_loop.induct)
  case (1 i arr sz)
  show ?case
  proof (cases "i < sz")
    case False
    with "1.prems" have "nat sz \<le> Suc (nat i - 1)" by simp
    then have "shift_left (nat i - 1) (nat sz) arr = arr" by (rule shift_left_id)
    with False show ?thesis by (subst compact_loop.simps) simp
  next
    case True
    let ?j = "nat i - 1"
    have rd: "arr_read arr i = Some (arr ! Suc ?j)"
      using True "1.prems" by (simp add: arr_read_def Suc_nat_eq_nat_zadd1 nat_diff_distrib')
    have wr: "arr_write arr (i - 1) (arr ! Suc ?j) = Some (arr[?j := arr ! Suc ?j])"
      using True "1.prems" by (simp add: arr_write_def nat_diff_distrib')
    have ih: "compact_loop (i + 1) (arr[?j := arr ! Suc ?j]) sz
              = Some (shift_left (nat (i + 1) - 1) (nat sz) (arr[?j := arr ! Suc ?j]))"
      using "1.IH"[OF True rd wr] True "1.prems" by simp
    have eq: "nat (i + 1) - 1 = Suc ?j" using "1.prems" by simp
    have "Suc ?j < nat sz" using True "1.prems" by simp
    moreover have "nat sz \<le> length arr" using "1.prems" by simp
    ultimately have
      "shift_left (Suc ?j) (nat sz) (arr[?j := arr ! Suc ?j]) = shift_left ?j (nat sz) arr"
      by (rule shift_left_step)
    with ih eq rd wr True show ?thesis
      by (subst compact_loop.simps) simp
  qed
qed

lemma compact_array_shift:
  "0 \<le> idx \<Longrightarrow> idx < sz \<Longrightarrow> sz \<le> int (length arr) \<Longrightarrow>
   compact_array idx arr sz = Some (shift_left (nat idx) (nat sz) arr)"
  using compact_loop_shift [of "idx + 1" sz arr]
  by (simp add: compact_array_def nat_add_distrib)

lemma shift_left_take_drop:
  assumes "j < n" "n \<le> length arr"
  shows "shift_left j n arr = take j arr @ drop (Suc j) (take n arr) @ drop (n - 1) arr"
proof (rule nth_equalityI)
  show "length (shift_left j n arr)
        = length (take j arr @ drop (Suc j) (take n arr) @ drop (n - 1) arr)"
    using assms by simp
next
  fix k assume "k < length (shift_left j n arr)"
  then have k: "k < length arr" by simp
  show "shift_left j n arr ! k = (take j arr @ drop (Suc j) (take n arr) @ drop (n - 1) arr) ! k"
    using k assms by (auto simp: nth_shift_left nth_append min_def)
qed

lemma take_shift_left:
  assumes "j < n" "n \<le> length arr"
  shows "take (n - 1) (shift_left j n arr) = take j arr @ drop (Suc j) (take n arr)"
  using assms by (simp add: shift_left_take_drop)

subsection \<open>The first message\<close>

lemma length_fill_from [simp]: "length (fill_from r i msg b) = length b"
  by (simp add: fill_from_def)

lemma nth_fill_from:
  "k < length b \<Longrightarrow> fill_from r i msg b ! k =
     (if i \<le> k \<and> k < r then msg ! k else if i \<le> Suc k \<and> r \<le> k then msg ! Suc k else b ! k)"
  by (simp add: fill_from_def)

lemma fill_from_done: "length b < i \<Longrightarrow> fill_from r i msg b = b"
  by (rule nth_equalityI) (auto simp: nth_fill_from)

lemma fill_from_low:
  "i < r \<Longrightarrow> i < length b \<Longrightarrow> fill_from r (Suc i) msg (b[i := msg ! i]) = fill_from r i msg b"
  by (rule nth_equalityI) (auto simp: nth_fill_from nth_list_update)

lemma fill_from_skip: "fill_from i (Suc i) msg b = fill_from i i msg b"
  by (rule nth_equalityI) (auto simp: nth_fill_from)

lemma fill_from_high:
  "r < i \<Longrightarrow> i \<le> length b \<Longrightarrow>
   fill_from r (Suc i) msg (b[i - 1 := msg ! i]) = fill_from r i msg b"
  by (rule nth_equalityI) (auto simp: nth_fill_from nth_list_update)

lemma first_message_fill:
  "0 \<le> i \<Longrightarrow> 0 \<le> rank \<Longrightarrow> rank < num_proc \<Longrightarrow> i \<le> num_proc \<Longrightarrow>
   int (length msg_arr) = num_proc \<Longrightarrow> int (length b) = num_proc - 1 \<Longrightarrow>
   first_message msg_arr rank num_proc i b = Some (fill_from (nat rank) (nat i) msg_arr b)"
proof (induction msg_arr rank num_proc i b rule: first_message.induct)
  case (1 msg_arr rank num_proc i b)
  note pr = "1.prems"
  show ?case
  proof (cases "i < num_proc")
    case False
    with pr have "length b < nat i" by simp
    then have "fill_from (nat rank) (nat i) msg_arr b = b" by (rule fill_from_done)
    with False show ?thesis by (subst first_message.simps) simp
  next
    case lt: True
    consider (low) "i < rank" | (eq) "i = rank" | (high) "rank < i" by linarith
    then show ?thesis
    proof cases
      case low
      have rd: "arr_read msg_arr i = Some (msg_arr ! nat i)"
        using pr lt by (simp add: arr_read_def)
      have wr: "arr_write b i (msg_arr ! nat i) = Some (b[nat i := msg_arr ! nat i])"
        using pr low by (simp add: arr_write_def)
      have len: "int (length (b[nat i := msg_arr ! nat i])) = num_proc - 1" using pr by simp
      have ih: "first_message msg_arr rank num_proc (i + 1) (b[nat i := msg_arr ! nat i])
                = Some (fill_from (nat rank) (nat (i + 1)) msg_arr (b[nat i := msg_arr ! nat i]))"
        using "1.IH"(1)[OF lt low rd wr] pr lt len by simp
      have s: "nat (i + 1) = Suc (nat i)" using pr by simp
      have "fill_from (nat rank) (Suc (nat i)) msg_arr (b[nat i := msg_arr ! nat i])
            = fill_from (nat rank) (nat i) msg_arr b"
        using pr low by (intro fill_from_low) simp_all
      with ih s rd wr lt low show ?thesis by (subst first_message.simps) simp
    next
      case eq
      have ih: "first_message msg_arr rank num_proc (i + 1) b
                = Some (fill_from (nat rank) (nat (i + 1)) msg_arr b)"
        using "1.IH"(2)[OF lt _ eq] pr lt eq by simp
      have s: "nat (i + 1) = Suc (nat i)" using pr by simp
      have "fill_from (nat i) (Suc (nat i)) msg_arr b = fill_from (nat i) (nat i) msg_arr b"
        by (rule fill_from_skip)
      with ih s lt eq show ?thesis by (subst first_message.simps) simp
    next
      case high
      have rd: "arr_read msg_arr i = Some (msg_arr ! nat i)"
        using pr lt by (simp add: arr_read_def)
      have wr: "arr_write b (i - 1) (msg_arr ! nat i) = Some (b[nat i - 1 := msg_arr ! nat i])"
        using pr high lt by (simp add: arr_write_def nat_diff_distrib')
      have len: "int (length (b[nat i - 1 := msg_arr ! nat i])) = num_proc - 1" using pr by simp
      have ih: "first_message msg_arr rank num_proc (i + 1) (b[nat i - 1 := msg_arr ! nat i])
                = Some (fill_from (nat rank) (nat (i + 1)) msg_arr (b[nat i - 1 := msg_arr ! nat i]))"
        using "1.IH"(3)[OF lt _ _ rd wr] pr lt high len by simp
      have s: "nat (i + 1) = Suc (nat i)" using pr by simp
      have "fill_from (nat rank) (Suc (nat i)) msg_arr (b[nat i - 1 := msg_arr ! nat i])
            = fill_from (nat rank) (nat i) msg_arr b"
        using pr high lt by (intro fill_from_high) simp_all
      with ih s rd wr lt high show ?thesis by (subst first_message.simps) simp
    qed
  qed
qed

lemma fill_from_0:
  assumes "r \<le> length b" "length msg = Suc (length b)"
  shows "fill_from r 0 msg b = take r msg @ drop (Suc r) msg"
proof (rule nth_equalityI)
  show "length (fill_from r 0 msg b) = length (take r msg @ drop (Suc r) msg)"
    using assms by simp
next
  fix k assume "k < length (fill_from r 0 msg b)"
  then have "k < length b" by simp
  then show "fill_from r 0 msg b ! k = (take r msg @ drop (Suc r) msg) ! k"
    using assms by (auto simp: nth_fill_from nth_append min_def)
qed

subsection \<open>Ranks and rounds on natural numbers\<close>

lemma origin_nat:
  "0 < N \<Longrightarrow> i \<le> N + p \<Longrightarrow> origin (int p) (int N) (int i) = int ((N + p - i) mod N)"
  by (simp add: origin_def c_mod_nonneg zmod_int of_nat_diff)

lemma recv_from_nat:
  "0 < N \<Longrightarrow> recv_from (int p) (int N) = int ((p + N - 1) mod N)"
  by (simp add: recv_from_def c_mod_nonneg zmod_int of_nat_diff)

lemma send_to_nat:
  "0 < N \<Longrightarrow> send_to (int p) (int N) = int ((p + 1) mod N)"
  by (simp add: send_to_def c_mod_nonneg zmod_int add.commute)

lemma origin_cases:
  fixes N p i :: nat
  assumes "p < N" "0 < i" "i < N"
  shows "(N + p - i) mod N = (if i \<le> p then p - i else N + p - i)"
proof (cases "i \<le> p")
  case True
  then have "N + p - i = (p - i) + N" by arith
  then have "(N + p - i) mod N = (p - i) mod N" by simp
  with True assms show ?thesis by simp
next
  case False
  with assms show ?thesis by simp
qed

lemma data_index_nat:
  "0 < N \<Longrightarrow> i \<le> N + p \<Longrightarrow> data_index (int p) (int N) (int i) = int (dindex p N i)"
  by (simp add: data_index_def dindex_def origin_nat)

lemma dindex_cases:
  "p < N \<Longrightarrow> 0 < i \<Longrightarrow> i < N \<Longrightarrow> dindex p N i = (if i \<le> p then p - i else 0)"
  by (simp add: dindex_def origin_cases)

lemma dindex_less: "p < N \<Longrightarrow> 0 < i \<Longrightarrow> i < N \<Longrightarrow> dindex p N i < N - i"
  by (auto simp: dindex_cases)

lemma origin_less: "0 < (N::nat) \<Longrightarrow> (N + p - i) mod N < N"
  by simp

lemma origin_neq_rank: "p < (N::nat) \<Longrightarrow> 0 < i \<Longrightarrow> i < N \<Longrightarrow> (N + p - i) mod N \<noteq> p"
  by (auto simp: origin_cases)

lemma round_send_Some:
  assumes "i \<le> N" "length (buf st) = N - 1" "0 < i"
  shows "round_send wtime rank (int N) (int i) st
         = Some (take (N - i) (buf st),
                 st\<lparr>time_taken := wtime (ticks st) - time_taken st, ticks := ticks st + 1\<rparr>)"
  using assms by (simp add: round_send_def mpi_send_def msg_size_def Let_def nat_diff_distrib' of_nat_diff)

lemma round_recv_Some:
  assumes "p < N" "0 < i" "i < N" "length (buf st) = N - 1" "length (res_arr st) = N"
    "length m \<le> N - i"
  shows "round_recv wtime (int p) (int N) (int i) m st
         = Some (st\<lparr>buf := shift_left (dindex p N i) (N - i) (m @ drop (length m) (buf st)),
                    res_arr := (res_arr st)[(N + p - i) mod N := (m @ drop (length m) (buf st)) ! dindex p N i],
                    res_writes := res_writes st @ [int ((N + p - i) mod N)],
                    time_taken := time_taken st + (wtime (ticks st + 1) - wtime (ticks st)),
                    ticks := ticks st + 2\<rparr>)"
proof -
  let ?b = "m @ drop (length m) (buf st)"
  have N: "0 < N" "i \<le> N + p" using assms by simp_all
  have ms: "msg_size (int N) (int i) = int (N - i)"
    using assms by (simp add: msg_size_def of_nat_diff)
  have lb: "length ?b = N - 1" using assms by simp
  have rc: "mpi_recv (buf st) (int (N - i)) m = Some ?b"
    using assms by (simp add: mpi_recv_def)
  have di: "dindex p N i < N - i" using assms by (simp add: dindex_less)
  have rd: "arr_read ?b (int (dindex p N i)) = Some (?b ! dindex p N i)"
    using di lb assms unfolding arr_read_def by simp
  have wr: "arr_write (res_arr st) (int ((N + p - i) mod N)) v
            = Some ((res_arr st)[(N + p - i) mod N := v])" for v
    using assms N by (simp add: arr_write_def)
  have ca: "compact_array (int (dindex p N i)) ?b (int (N - i))
            = Some (shift_left (dindex p N i) (N - i) ?b)"
  proof -
    have "compact_array (int (dindex p N i)) ?b (int (N - i))
          = Some (shift_left (nat (int (dindex p N i))) (nat (int (N - i))) ?b)"
    proof (rule compact_array_shift)
      show "0 \<le> int (dindex p N i)" by simp
      show "int (dindex p N i) < int (N - i)" using di by simp
      show "int (N - i) \<le> int (length ?b)" using lb assms by simp
    qed
    then show ?thesis by (simp only: nat_int)
  qed
  show ?thesis
    unfolding round_recv_def Let_def ms data_index_nat [OF N] origin_nat [OF N] rc
    by (simp add: rd wr ca)
qed

lemma nth_fill_from_low: "j < length b \<Longrightarrow> j < r \<Longrightarrow> fill_from r 0 msg b ! j = msg ! j"
  by (simp add: nth_fill_from)

lemma nth_fill_from_high: "j < length b \<Longrightarrow> r \<le> j \<Longrightarrow> fill_from r 0 msg b ! j = msg ! Suc j"
  by (simp add: nth_fill_from)

lemma int_rank_cases:
  assumes "0 \<le> rank" "rank < num_proc" "1 \<le> i" "i < num_proc"
  obtains p N j where "rank = int p" "num_proc = int N" "i = int j" "p < N" "0 < j" "j < N"
proof -
  obtain p where p: "rank = int p" using assms(1) by (rule nonneg_int_cases)
  have "0 \<le> num_proc" using assms by simp
  then obtain N where N: "num_proc = int N" by (rule nonneg_int_cases)
  have "0 \<le> i" using assms by simp
  then obtain j where j: "i = int j" by (rule nonneg_int_cases)
  show thesis using that [OF p N j] assms p N j by simp
qed

lemma origin_cases0:
  fixes N p j :: nat
  assumes "p < N" "j < N"
  shows "(N + p - j) mod N = (if j \<le> p then p - j else N + p - j)"
proof (cases "j \<le> p")
  case True
  then have "N + p - j = (p - j) + N" by arith
  then have "(N + p - j) mod N = (p - j) mod N" by simp
  with True assms show ?thesis by simp
next
  case False
  with assms show ?thesis by simp
qed

lemma origin_invol:
  fixes N p j :: nat
  assumes "p < N" "j < N"
  shows "(N + p - (N + p - j) mod N) mod N = j"
proof -
  let ?o = "(N + p - j) mod N"
  have o: "?o = (if j \<le> p then p - j else N + p - j)" using assms by (rule origin_cases0)
  have "?o < N" using assms by simp
  with assms(1) have "(N + p - ?o) mod N = (if ?o \<le> p then p - ?o else N + p - ?o)"
    by (rule origin_cases0)
  with o assms show ?thesis by (auto split: if_splits)
qed

lemma origin_inj:
  fixes N p j k :: nat
  assumes "p < N" "j < N" "k < N" "(N + p - j) mod N = (N + p - k) mod N"
  shows "j = k"
proof -
  have "j = (N + p - (N + p - j) mod N) mod N"
    by (rule origin_invol [OF assms(1,2), symmetric])
  also have "\<dots> = (N + p - (N + p - k) mod N) mod N"
    by (simp only: assms(4))
  also have "\<dots> = k"
    by (rule origin_invol [OF assms(1,3)])
  finally show ?thesis .
qed

lemma dests_step:
  assumes "p < N" "0 < i" "i < N"
  shows "length (dests N ((N + p - i) mod N) ((p + N - 1) mod N)) = N - i"
    and "dests N ((N + p - i) mod N) ((p + N - 1) mod N) ! dindex p N i = p"
    and "take (dindex p N i) (dests N ((N + p - i) mod N) ((p + N - 1) mod N))
         @ drop (Suc (dindex p N i)) (dests N ((N + p - i) mod N) ((p + N - 1) mod N))
         = dests N ((N + p - i) mod N) p"
proof -
  have o: "(N + p - i) mod N = (if i \<le> p then p - i else N + p - i)"
    using assms by (rule origin_cases)
  have d: "dindex p N i = (if i \<le> p then p - i else 0)" using assms by (rule dindex_cases)
  have q: "(p + N - 1) mod N = (if p = 0 then N - 1 else p - 1)"
    using origin_cases0 [of p N 1] assms by (auto simp: add.commute)
  show "length (dests N ((N + p - i) mod N) ((p + N - 1) mod N)) = N - i"
    unfolding o d q using assms by (auto simp: dests_def)
  show "dests N ((N + p - i) mod N) ((p + N - 1) mod N) ! dindex p N i = p"
    unfolding o d q using assms by (auto simp: dests_def nth_append)
  show "take (dindex p N i) (dests N ((N + p - i) mod N) ((p + N - 1) mod N))
         @ drop (Suc (dindex p N i)) (dests N ((N + p - i) mod N) ((p + N - 1) mod N))
         = dests N ((N + p - i) mod N) p"
    unfolding o d q using assms by (auto simp: dests_def)
qed

lemma dests_sorted: "sorted_wrt (<) (dests N ori h)"
  by (auto simp: dests_def sorted_wrt_append)

lemma dests_set: "ori < N \<Longrightarrow> h < N \<Longrightarrow> set (dests N ori h) \<subseteq> {0..<N} - {h} - {ori}"
  by (auto simp: dests_def)

lemma pred_origin:
  fixes N p k :: nat
  assumes "p < N" "Suc k < N"
  shows "(N + (p + N - 1) mod N - k) mod N = (N + p - Suc k) mod N"
proof -
  have q: "(p + N - 1) mod N = (if p = 0 then N - 1 else p - 1)"
    using origin_cases0 [of p N 1] assms by (auto simp: add.commute)
  show ?thesis
  proof (cases "p = 0")
    case True
    have "N + (N - 1) - k = (N - 1 - k) + N" using assms by arith
    then have "(N + (N - 1) - k) mod N = (N - 1 - k) mod N" by simp
    with True q assms show ?thesis by simp
  next
    case False
    then have "N + (p - 1) - k = N + p - Suc k" by arith
    with False q show ?thesis by simp
  qed
qed

subsection \<open>The ring\<close>

lemma those_map_Some:
  "(\<And>x. x \<in> set xs \<Longrightarrow> f x = Some (g x)) \<Longrightarrow> those (map f xs) = Some (map g xs)"
  by (induction xs) simp_all

lemma a2a_init_Some:
  assumes "p < N" "length msg_arr = N" "length res0 = N" "length buf0 = N - 1"
  shows "a2a_init wtime msg_arr res0 buf0 (int p) (int N)
         = Some \<lparr>buf = take p msg_arr @ drop (Suc p) msg_arr, res_arr = res0[p := msg_arr ! p],
                 res_writes = [int p], time_taken = wtime 0, ticks = 1\<rparr>"
proof -
  have l: "int (length buf0) = int N - 1" using assms by (simp add: of_nat_diff)
  have "first_message msg_arr (int p) (int N) 0 buf0
        = Some (fill_from (nat (int p)) (nat 0) msg_arr buf0)"
    by (rule first_message_fill) (use assms l in simp_all)
  moreover have "fill_from p 0 msg_arr buf0 = take p msg_arr @ drop (Suc p) msg_arr"
    by (rule fill_from_0) (use assms in simp_all)
  ultimately have f: "first_message msg_arr (int p) (int N) 0 buf0
        = Some (take p msg_arr @ drop (Suc p) msg_arr)" by simp
  have rd: "arr_read msg_arr (int p) = Some (msg_arr ! p)"
    using assms by (simp add: arr_read_def)
  have wr: "arr_write res0 (int p) (msg_arr ! p) = Some (res0[p := msg_arr ! p])"
    using assms by (simp add: arr_write_def)
  show ?thesis using l by (simp add: a2a_init_def f rd wr)
qed

lemma map_nth_upt:
  "b \<le> length xs \<Longrightarrow> map (\<lambda>d. xs ! d) [a..<b] = drop a (take b xs)"
  by (rule nth_equalityI) auto

lemma origin_zero: "p < (N::nat) \<Longrightarrow> (N + p - 0) mod N = p"
  by simp

lemma ring_init_inv:
  assumes "length msgs = N" "\<And>p. p < N \<Longrightarrow> length (msgs ! p) = N"
    "\<And>p. p < N \<Longrightarrow> length (ress ! p) = N" "\<And>p. p < N \<Longrightarrow> length (bufs ! p) = N - 1"
  shows "\<exists>sts. ring_init clk msgs ress bufs N = Some sts \<and> ring_inv msgs N 0 sts"
proof -
  define g where "g p = \<lparr>buf = take p (msgs ! p) @ drop (Suc p) (msgs ! p),
      res_arr = (ress ! p)[p := msgs ! p ! p],
      res_writes = [int p], time_taken = clk p 0, ticks = 1\<rparr>" for p
  have "those (map (\<lambda>p. a2a_init (clk p) (msgs ! p) (ress ! p) (bufs ! p) (int p) (int N)) [0..<N])
        = Some (map g [0..<N])"
  proof (rule those_map_Some)
    fix p assume "p \<in> set [0..<N]"
    then have p: "p < N" by simp
    show "a2a_init (clk p) (msgs ! p) (ress ! p) (bufs ! p) (int p) (int N) = Some (g p)"
      unfolding g_def using p assms(2-4) [OF p] by (rule a2a_init_Some)
  qed
  then have r: "ring_init clk msgs ress bufs N = Some (map g [0..<N])"
    by (simp add: ring_init_def)
  have "ring_inv msgs N 0 (map g [0..<N])"
    unfolding ring_inv_def
  proof (intro conjI allI impI)
    show "length (map g [0..<N]) = N" by simp
  next
    fix p assume p: "p < N"
    have n: "map g [0..<N] ! p = g p" using p by simp
    have lm: "length (msgs ! p) = N" using assms(2) [OF p] .
    show "length (buf (map g [0..<N] ! p)) = N - 1"
      unfolding n using p lm by (simp add: g_def)
    show "length (res_arr (map g [0..<N] ! p)) = N"
      unfolding n using assms(3) [OF p] by (simp add: g_def)
    have "map (\<lambda>d. msgs ! p ! d) ([0..<p] @ [Suc p..<N]) = take p (msgs ! p) @ drop (Suc p) (msgs ! p)"
      using p lm by (simp add: map_nth_upt)
    then show "take (N - 1 - 0) (buf (map g [0..<N] ! p))
        = map (\<lambda>d. msgs ! ((N + p - 0) mod N) ! d) (dests N ((N + p - 0) mod N) p)"
      unfolding n origin_zero [OF p] using p lm by (simp add: g_def dests_def)
    show "res_writes (map g [0..<N] ! p) = map (\<lambda>j. int ((N + p - j) mod N)) [0..<Suc 0]"
      unfolding n using p by (simp add: g_def)
  next
    fix p j assume p: "p < N" and "j \<le> (0::nat)"
    then have j: "j = 0" by simp
    have n: "map g [0..<N] ! p = g p" using p by simp
    show "res_arr (map g [0..<N] ! p) ! ((N + p - j) mod N) = msgs ! ((N + p - j) mod N) ! p"
      unfolding n j origin_zero [OF p] using assms(3) [OF p] p by (simp add: g_def)
  qed
  with r show ?thesis by blast
qed

lemma ring_invD:
  assumes "ring_inv msgs N k sts" "p < N"
  shows "length (buf (sts ! p)) = N - 1" "length (res_arr (sts ! p)) = N"
    "take (N - 1 - k) (buf (sts ! p))
       = map (\<lambda>d. msgs ! ((N + p - k) mod N) ! d) (dests N ((N + p - k) mod N) p)"
    "\<And>j. j \<le> k \<Longrightarrow> res_arr (sts ! p) ! ((N + p - j) mod N) = msgs ! ((N + p - j) mod N) ! p"
    "res_writes (sts ! p) = map (\<lambda>j. int ((N + p - j) mod N)) [0..<Suc k]"
  using assms unfolding ring_inv_def by blast+

lemma ring_inv_payload:
  assumes inv: "ring_inv msgs N k sts" and p: "p < N" and k: "Suc k < N"
  shows "take (N - Suc k) (buf (sts ! ((p + N - 1) mod N)))
         = map (\<lambda>d. msgs ! ((N + p - Suc k) mod N) ! d)
             (dests N ((N + p - Suc k) mod N) ((p + N - 1) mod N))"
proof -
  let ?q = "(p + N - 1) mod N"
  have q: "?q < N" using p by simp
  have "take (N - Suc k) (buf (sts ! ?q)) = take (N - 1 - k) (buf (sts ! ?q))" by simp
  also have "\<dots> = map (\<lambda>d. msgs ! ((N + ?q - k) mod N) ! d) (dests N ((N + ?q - k) mod N) ?q)"
    by (rule ring_invD(3) [OF inv q])
  also have "(N + ?q - k) mod N = (N + p - Suc k) mod N"
    using p k by (rule pred_origin)
  finally show ?thesis .
qed

lemma ring_inv_extract:
  assumes inv: "ring_inv msgs N k sts" and p: "p < N" and k: "Suc k < N"
  shows "take (N - Suc k) (buf (sts ! ((p + N - 1) mod N))) ! dindex p N (Suc k)
         = msgs ! ((N + p - Suc k) mod N) ! p"
proof -
  let ?ds = "dests N ((N + p - Suc k) mod N) ((p + N - 1) mod N)"
  have di: "dindex p N (Suc k) < length ?ds"
    using dindex_less [OF p _ k] dests_step(1) [OF p _ k] by simp
  have "take (N - Suc k) (buf (sts ! ((p + N - 1) mod N))) ! dindex p N (Suc k)
        = msgs ! ((N + p - Suc k) mod N) ! (?ds ! dindex p N (Suc k))"
    unfolding ring_inv_payload [OF inv p k] using di by simp
  also have "?ds ! dindex p N (Suc k) = p"
    using dests_step(2) [OF p _ k] by simp
  finally show ?thesis .
qed

lemma ring_round_inv:
  assumes inv: "ring_inv msgs N k sts" and k: "Suc k < N"
  shows "\<exists>sts'. ring_round clk N (Suc k) sts = Some sts' \<and> ring_inv msgs N (Suc k) sts'"
proof -
  define pay where "pay q = take (N - Suc k) (buf (sts ! q))" for q
  define st1 where "st1 p = (sts ! p)\<lparr>time_taken := clk p (ticks (sts ! p)) - time_taken (sts ! p),
      ticks := ticks (sts ! p) + 1\<rparr>" for p
  define pre where "pre p = (p + N - 1) mod N" for p
  define b where "b p = pay (pre p) @ drop (length (pay (pre p))) (buf (st1 p))" for p
  define ori where "ori p = (N + p - Suc k) mod N" for p
  define st2 where "st2 p = (st1 p)\<lparr>buf := shift_left (dindex p N (Suc k)) (N - Suc k) (b p),
      res_arr := (res_arr (st1 p))[(N + p - Suc k) mod N := b p ! dindex p N (Suc k)],
      res_writes := res_writes (st1 p) @ [int ((N + p - Suc k) mod N)],
      time_taken := time_taken (st1 p) + (clk p (ticks (st1 p) + 1) - clk p (ticks (st1 p))),
      ticks := ticks (st1 p) + 2\<rparr>" for p
  have N: "0 < N" using k by simp
  have pre_less: "pre p < N" for p using N by (simp add: pre_def)
  have lbuf: "length (buf (sts ! p)) = N - 1" if "p < N" for p
    using ring_invD(1) [OF inv that] .
  have lres: "length (res_arr (sts ! p)) = N" if "p < N" for p
    using ring_invD(2) [OF inv that] .
  have lpay: "length (pay q) = N - Suc k" if "q < N" for q
    using lbuf [OF that] k by (simp add: pay_def)
  have lb: "length (b p) = N - 1" if "p < N" for p
    using lpay [OF pre_less] lbuf [OF that] k by (simp add: b_def st1_def)
  have sent: "those (map (\<lambda>p. round_send (clk p) (int p) (int N) (int (Suc k)) (sts ! p)) [0..<N])
        = Some (map (\<lambda>p. (pay p, st1 p)) [0..<N])"
  proof (rule those_map_Some)
    fix p assume "p \<in> set [0..<N]"
    then have p: "p < N" by simp
    show "round_send (clk p) (int p) (int N) (int (Suc k)) (sts ! p) = Some (pay p, st1 p)"
      unfolding pay_def st1_def
      by (rule round_send_Some) (use k lbuf [OF p] in simp_all)
  qed
  have recv: "those (map (\<lambda>p. round_recv (clk p) (int p) (int N) (int (Suc k))
                 (fst (map (\<lambda>p. (pay p, st1 p)) [0..<N] ! nat (recv_from (int p) (int N))))
                 (snd (map (\<lambda>p. (pay p, st1 p)) [0..<N] ! p))) [0..<N])
        = Some (map st2 [0..<N])"
  proof (rule those_map_Some)
    fix p assume "p \<in> set [0..<N]"
    then have p: "p < N" by simp
    have r: "nat (recv_from (int p) (int N)) = pre p"
      using N by (simp add: recv_from_nat pre_def)
    have f: "fst (map (\<lambda>p. (pay p, st1 p)) [0..<N] ! nat (recv_from (int p) (int N))) = pay (pre p)"
      unfolding r using pre_less [of p] by simp
    have s: "snd (map (\<lambda>p. (pay p, st1 p)) [0..<N] ! p) = st1 p" using p by simp
    have "round_recv (clk p) (int p) (int N) (int (Suc k)) (pay (pre p)) (st1 p) = Some (st2 p)"
      unfolding st2_def b_def
    proof (rule round_recv_Some)
      show "p < N" by (rule p)
      show "0 < Suc k" by simp
      show "Suc k < N" by (rule k)
      show "length (buf (st1 p)) = N - 1" using lbuf [OF p] by (simp add: st1_def)
      show "length (res_arr (st1 p)) = N" using lres [OF p] by (simp add: st1_def)
      show "length (pay (pre p)) \<le> N - Suc k" using lpay [OF pre_less] by simp
    qed
    then show "round_recv (clk p) (int p) (int N) (int (Suc k))
                 (fst (map (\<lambda>p. (pay p, st1 p)) [0..<N] ! nat (recv_from (int p) (int N))))
                 (snd (map (\<lambda>p. (pay p, st1 p)) [0..<N] ! p)) = Some (st2 p)"
      by (simp only: f s)
  qed
  have run: "ring_round clk N (Suc k) sts = Some (map st2 [0..<N])"
    by (simp add: ring_round_def sent recv del: of_nat_Suc)
  have "ring_inv msgs N (Suc k) (map st2 [0..<N])"
    unfolding ring_inv_def
  proof (intro conjI allI impI)
    show "length (map st2 [0..<N]) = N" by simp
  next
    fix p assume p: "p < N"
    have n: "map st2 [0..<N] ! p = st2 p" using p by simp
    let ?o = "(N + p - Suc k) mod N"
    let ?di = "dindex p N (Suc k)"
    let ?ds = "dests N ?o (pre p)"
    have di: "?di < N - Suc k" using p k by (intro dindex_less) simp_all
    have payeq: "pay (pre p) = map (\<lambda>d. msgs ! ?o ! d) ?ds"
      unfolding pay_def pre_def by (rule ring_inv_payload [OF inv p k])
    have tb: "take (N - Suc k) (b p) = pay (pre p)"
      using lpay [OF pre_less, of p] by (simp add: b_def)
    have tdi: "take ?di (b p) = take ?di (pay (pre p))"
      using lpay [OF pre_less, of p] di by (simp add: b_def)
    show "length (buf (map st2 [0..<N] ! p)) = N - 1"
      unfolding n using lb [OF p] by (simp add: st2_def)
    show "length (res_arr (map st2 [0..<N] ! p)) = N"
      unfolding n using lres [OF p] by (simp add: st2_def st1_def)
    have "take (N - Suc k - 1) (shift_left ?di (N - Suc k) (b p))
          = take ?di (b p) @ drop (Suc ?di) (take (N - Suc k) (b p))"
      by (rule take_shift_left) (use di lb [OF p] in simp_all)
    also have "\<dots> = take ?di (pay (pre p)) @ drop (Suc ?di) (pay (pre p))"
      by (simp only: tb tdi)
    also have "\<dots> = map (\<lambda>d. msgs ! ?o ! d) (take ?di ?ds @ drop (Suc ?di) ?ds)"
      by (simp add: payeq take_map drop_map)
    also have "take ?di ?ds @ drop (Suc ?di) ?ds = dests N ?o p"
      using dests_step(3) [OF p _ k] by (simp add: pre_def)
    finally show "take (N - 1 - Suc k) (buf (map st2 [0..<N] ! p))
        = map (\<lambda>d. msgs ! ?o ! d) (dests N ?o p)"
      unfolding n by (simp add: st2_def)
    show "res_writes (map st2 [0..<N] ! p) = map (\<lambda>j. int ((N + p - j) mod N)) [0..<Suc (Suc k)]"
      unfolding n using ring_invD(5) [OF inv p] by (simp add: st2_def st1_def)
  next
    fix p j assume p: "p < N" and j: "j \<le> Suc k"
    have n: "map st2 [0..<N] ! p = st2 p" using p by simp
    let ?o = "(N + p - Suc k) mod N"
    let ?di = "dindex p N (Suc k)"
    let ?ds = "dests N ?o (pre p)"
    have di: "?di < N - Suc k" using p k by (intro dindex_less) simp_all
    have bdi: "b p ! ?di = msgs ! ?o ! p"
    proof -
      have "b p ! ?di = pay (pre p) ! ?di"
        using lpay [OF pre_less, of p] di by (simp add: b_def nth_append)
      also have "\<dots> = msgs ! ?o ! p"
        unfolding pay_def pre_def by (rule ring_inv_extract [OF inv p k])
      finally show ?thesis .
    qed
    have ol: "?o < length (res_arr (sts ! p))" using lres [OF p] N by simp
    show "res_arr (map st2 [0..<N] ! p) ! ((N + p - j) mod N) = msgs ! ((N + p - j) mod N) ! p"
    proof (cases "j = Suc k")
      case True
      show ?thesis unfolding n True using ol bdi by (simp add: st2_def st1_def)
    next
      case False
      with j have jk: "j \<le> k" by simp
      have "(N + p - j) mod N \<noteq> ?o"
      proof
        assume "(N + p - j) mod N = ?o"
        then have "j = Suc k" using p k jk by (intro origin_inj [of p N j "Suc k"]) simp_all
        with False show False by simp
      qed
      then show ?thesis
        unfolding n using ring_invD(4) [OF inv p jk] by (simp add: st2_def st1_def)
    qed
  qed
  with run show ?thesis by blast
qed

lemma ring_after_inv:
  assumes "ring_inv msgs N 0 sts0"
  shows "k < N \<Longrightarrow> \<exists>sts. ring_after clk N k sts0 = Some sts \<and> ring_inv msgs N k sts"
proof (induction k)
  case 0
  with assms show ?case by simp
next
  case (Suc k)
  then obtain sts where a: "ring_after clk N k sts0 = Some sts" and i: "ring_inv msgs N k sts"
    by auto
  from ring_round_inv [OF i Suc.prems, of clk] a show ?case by simp
qed

lemma ring_run_inv:
  assumes "length msgs = N" "\<forall>p<N. length (msgs ! p) = N"
    "\<forall>p<N. length (ress ! p) = N" "\<forall>p<N. length (bufs ! p) = N - 1" "k < N"
  shows "\<exists>sts. ring_run clk msgs ress bufs N k = Some sts \<and> ring_inv msgs N k sts"
proof -
  obtain sts0 where i: "ring_init clk msgs ress bufs N = Some sts0" and v: "ring_inv msgs N 0 sts0"
    using ring_init_inv [of msgs N ress bufs clk] assms(1-4) by auto
  from ring_after_inv [OF v assms(5), of clk] i show ?thesis
    by (simp add: ring_run_def)
qed

lemma ring_run_Suc:
  "ring_run clk msgs ress bufs N (Suc k)
   = Option.bind (ring_run clk msgs ress bufs N k) (ring_round clk N (Suc k))"
  by (simp add: ring_run_def)

lemma ring_wf_nth:
  assumes "length xss = N" "\<forall>xs\<in>set xss. length xs = n"
  shows "\<forall>p<N. length (xss ! p) = n"
  using assms by auto

lemma ring_run_wf:
  assumes "length msgs = N" "\<forall>m\<in>set msgs. length m = N"
    "length ress = N" "\<forall>r\<in>set ress. length r = N"
    "length bufs = N" "\<forall>c\<in>set bufs. length c = N - 1" "k < N"
  obtains sts where "ring_run clk msgs ress bufs N k = Some sts" "ring_inv msgs N k sts"
proof -
  have "\<exists>sts. ring_run clk msgs ress bufs N k = Some sts \<and> ring_inv msgs N k sts"
    using assms(1) ring_wf_nth [OF assms(1,2)] ring_wf_nth [OF assms(3,4)]
      ring_wf_nth [OF assms(5,6)] assms(7)
    by (rule ring_run_inv)
  then show thesis using that by blast
qed

lemma hop_distance:
  fixes N p i :: nat
  assumes "p < N" "0 < i" "i < N"
  shows "(int p - int ((N + p - i) mod N)) mod int N = int i"
proof (cases "i \<le> p")
  case True
  then have "(N + p - i) mod N = p - i" using assms by (simp add: origin_cases)
  with True assms show ?thesis by (simp add: of_nat_diff)
next
  case False
  then have "(N + p - i) mod N = N + p - i" using assms by (simp add: origin_cases)
  then have "int p - int ((N + p - i) mod N) = int i - int N"
    using False assms by (simp add: of_nat_diff)
  moreover have "(int i - int N) mod int N = int i mod int N"
    by (simp add: mod_diff_right_eq [symmetric])
  ultimately show ?thesis using assms by simp
qed

subsection \<open>One process, all rounds\<close>

lemma count_list_distinct:
  "distinct xs \<Longrightarrow> count_list xs x = (if x \<in> set xs then 1 else 0)"
  by (induction xs) auto

lemma origin_distinct:
  assumes "p < N"
  shows "distinct (map (\<lambda>j. int ((N + p - j) mod N)) [0..<N])"
proof -
  have "inj_on (\<lambda>j. int ((N + p - j) mod N)) (set [0..<N])"
  proof (rule inj_onI)
    fix j k assume "j \<in> set [0..<N]" "k \<in> set [0..<N]"
      and e: "int ((N + p - j) mod N) = int ((N + p - k) mod N)"
    then have "j < N" "k < N" by simp_all
    moreover from e have "(N + p - j) mod N = (N + p - k) mod N" by (simp only: of_nat_eq_iff)
    ultimately show "j = k" using assms by (intro origin_inj [of p N j k])
  qed
  then show ?thesis by (simp add: distinct_map)
qed

lemma origin_set:
  assumes "p < N"
  shows "set (map (\<lambda>j. int ((N + p - j) mod N)) [0..<N]) = {k. 0 \<le> k \<and> k < int N}"
proof (intro set_eqI iffI)
  fix x assume "x \<in> set (map (\<lambda>j. int ((N + p - j) mod N)) [0..<N])"
  then obtain j where "x = int ((N + p - j) mod N)" by auto
  moreover have "(N + p - j) mod N < N" using assms by simp
  ultimately show "x \<in> {k. 0 \<le> k \<and> k < int N}" by simp
next
  fix x assume "x \<in> {k. 0 \<le> k \<and> k < int N}"
  then have x: "0 \<le> x" "x < int N" by simp_all
  then obtain a where a: "x = int a" by (auto dest: nonneg_int_cases)
  with x have aN: "a < N" by simp
  let ?j = "(N + p - a) mod N"
  have "?j < N" using assms by simp
  moreover have "(N + p - ?j) mod N = a" using assms aN by (rule origin_invol)
  ultimately have "int a \<in> (\<lambda>j. int ((N + p - j) mod N)) ` {0..<N}"
    by (intro image_eqI [where x = ?j]) simp_all
  then show "x \<in> set (map (\<lambda>j. int ((N + p - j) mod N)) [0..<N])" by (simp add: a)
qed

lemma origin_count:
  assumes "p < N"
  shows "count_list (map (\<lambda>j. int ((N + p - j) mod N)) [0..<N]) x
         = (if 0 \<le> x \<and> x < int N then 1 else 0)"
  using count_list_distinct [OF origin_distinct [OF assms], of x] origin_set [OF assms]
  by simp

lemma a2a_rounds_run:
  assumes p: "p < N"
  shows "0 < i \<Longrightarrow> i \<le> N \<Longrightarrow> length (buf st) = N - 1 \<Longrightarrow> length (res_arr st) = N \<Longrightarrow>
     length inbox = N - i \<Longrightarrow> (\<forall>k<length inbox. length (inbox ! k) = N - i - k) \<Longrightarrow>
     \<exists>st' out. a2a_rounds wtime (int p) (int N) (int i) inbox st = Some (st', out) \<and>
        length (buf st') = N - 1 \<and> length (res_arr st') = N \<and>
        res_arr st' ! p = res_arr st ! p \<and>
        res_writes st' = res_writes st @ map (\<lambda>j. int ((N + p - j) mod N)) [i..<N] \<and>
        length out = N - i"
proof (induction inbox arbitrary: i st)
  case Nil
  then have "i = N" by simp
  then have "a2a_rounds wtime (int p) (int N) (int i) [] st = Some (st, [])"
    by (subst a2a_rounds.simps) simp
  with Nil show ?case by simp
next
  case (Cons m ms)
  have i: "0 < i" "i < N" using Cons.prems by simp_all
  have lm: "length m \<le> N - i" using Cons.prems(6) by auto
  define st1 where "st1 = st\<lparr>time_taken := wtime (ticks st) - time_taken st, ticks := ticks st + 1\<rparr>"
  let ?b = "m @ drop (length m) (buf st1)"
  let ?o = "(N + p - i) mod N"
  define st2 where "st2 = st1\<lparr>buf := shift_left (dindex p N i) (N - i) ?b,
      res_arr := (res_arr st1)[?o := ?b ! dindex p N i],
      res_writes := res_writes st1 @ [int ?o],
      time_taken := time_taken st1 + (wtime (ticks st1 + 1) - wtime (ticks st1)),
      ticks := ticks st1 + 2\<rparr>"
  have s: "round_send wtime (int p) (int N) (int i) st = Some (take (N - i) (buf st), st1)"
    unfolding st1_def by (rule round_send_Some) (use i Cons.prems in simp_all)
  have r: "round_recv wtime (int p) (int N) (int i) m st1 = Some st2"
    unfolding st2_def
    by (rule round_recv_Some) (use p i lm Cons.prems in \<open>simp_all add: st1_def\<close>)
  have l2: "length (buf st2) = N - 1" "length (res_arr st2) = N"
    using Cons.prems lm by (simp_all add: st2_def st1_def)
  have lms: "length ms = N - Suc i" using Cons.prems(5) by simp
  have each: "\<forall>k<length ms. length (ms ! k) = N - Suc i - k"
  proof (intro allI impI)
    fix k assume "k < length ms"
    then have "Suc k < length (m # ms)" by simp
    with Cons.prems(6) have "length ((m # ms) ! Suc k) = N - i - Suc k" by blast
    then show "length (ms ! k) = N - Suc i - k" by simp
  qed
  obtain st' out where
    ih: "a2a_rounds wtime (int p) (int N) (int (Suc i)) ms st2 = Some (st', out)"
    and ih2: "length (buf st') = N - 1" "length (res_arr st') = N"
      "res_arr st' ! p = res_arr st2 ! p"
      "res_writes st' = res_writes st2 @ map (\<lambda>j. int ((N + p - j) mod N)) [Suc i..<N]"
      "length out = N - Suc i"
    using Cons.IH [of "Suc i" st2] i l2 lms each by auto
  have ne: "?o \<noteq> p" using p i by (rule origin_neq_rank)
  have rp: "res_arr st2 ! p = res_arr st ! p"
    using ne by (simp add: st2_def st1_def)
  have rw: "res_writes st' = res_writes st @ map (\<lambda>j. int ((N + p - j) mod N)) [i..<N]"
    using ih2(4) i by (simp add: st2_def st1_def upt_conv_Cons)
  have e: "int i + 1 = int (Suc i)" by simp
  have "a2a_rounds wtime (int p) (int N) (int i) (m # ms) st
        = Some (st', take (N - i) (buf st) # out)"
    using i by (subst a2a_rounds.simps) (simp add: s r e ih del: of_nat_Suc)
  then show ?case using ih2 rp rw i by simp
qed

lemma all_to_all_personalized_run:
  assumes "p < N" "length msg_arr = N" "length res0 = N" "length buf0 = N - 1"
    "length inbox = N - 1" "\<forall>k<length inbox. length (inbox ! k) = N - 1 - k"
  shows "\<exists>st out. all_to_all_personalized wtime msg_arr res0 buf0 (int p) (int N) inbox
                     = Some (st, out) \<and>
           length (res_arr st) = N \<and> res_arr st ! p = msg_arr ! p \<and>
           res_writes st = map (\<lambda>j. int ((N + p - j) mod N)) [0..<N] \<and> length out = N - 1"
proof -
  define st0 where "st0 = \<lparr>buf = take p msg_arr @ drop (Suc p) msg_arr,
      res_arr = res0[p := msg_arr ! p], res_writes = [int p], time_taken = wtime 0, ticks = 1\<rparr>"
  have i: "a2a_init wtime msg_arr res0 buf0 (int p) (int N) = Some st0"
    unfolding st0_def using assms(1-4) by (rule a2a_init_Some)
  have "\<exists>st' out. a2a_rounds wtime (int p) (int N) (int 1) inbox st0 = Some (st', out) \<and>
        length (buf st') = N - 1 \<and> length (res_arr st') = N \<and>
        res_arr st' ! p = res_arr st0 ! p \<and>
        res_writes st' = res_writes st0 @ map (\<lambda>j. int ((N + p - j) mod N)) [1..<N] \<and>
        length out = N - 1"
    by (rule a2a_rounds_run [OF assms(1)]) (use assms in \<open>simp_all add: st0_def\<close>)
  then obtain st out where
    r: "a2a_rounds wtime (int p) (int N) 1 inbox st0 = Some (st, out)"
    and f: "length (res_arr st) = N" "res_arr st ! p = res_arr st0 ! p"
      "res_writes st = res_writes st0 @ map (\<lambda>j. int ((N + p - j) mod N)) [1..<N]"
      "length out = N - 1"
    by auto
  have w: "res_writes st = map (\<lambda>j. int ((N + p - j) mod N)) [0..<N]"
    using f(3) assms(1) by (simp add: st0_def upt_conv_Cons)
  have v: "res_arr st ! p = msg_arr ! p" using f(2) assms by (simp add: st0_def)
  show ?thesis using i r f(1,4) w v by (simp add: all_to_all_personalized_def)
qed

lemma int_run_cases:
  assumes "0 \<le> rank" "rank < num_proc"
  obtains p N where "rank = int p" "num_proc = int N" "p < N"
proof -
  obtain p where p: "rank = int p" using assms(1) by (rule nonneg_int_cases)
  have "0 \<le> num_proc" using assms by simp
  then obtain N where N: "num_proc = int N" by (rule nonneg_int_cases)
  show thesis using that [OF p N] assms p N by simp
qed

lemma all_to_all_personalized_int:
  assumes "0 \<le> rank" "rank < num_proc"
    "int (length msg_arr) = num_proc" "int (length res0) = num_proc"
    "int (length buf0) = num_proc - 1" "int (length inbox) = num_proc - 1"
    "\<forall>k<length inbox. int (length (inbox ! k)) = num_proc - 1 - int k"
  shows "\<exists>st out. all_to_all_personalized wtime msg_arr res0 buf0 rank num_proc inbox
                     = Some (st, out) \<and>
           res_arr st ! nat rank = msg_arr ! nat rank \<and>
           (\<forall>k. count_list (res_writes st) k = (if 0 \<le> k \<and> k < num_proc then 1 else 0))"
proof -
  obtain p N where p: "rank = int p" and N: "num_proc = int N" and pN: "p < N"
    using assms(1,2) by (rule int_run_cases)
  have l: "length msg_arr = N" "length res0 = N" "length buf0 = N - 1" "length inbox = N - 1"
    using assms(3-6) pN unfolding N by simp_all
  have e: "\<forall>k<length inbox. length (inbox ! k) = N - 1 - k"
  proof (intro allI impI)
    fix k assume k: "k < length inbox"
    with assms(7) have "int (length (inbox ! k)) = int N - 1 - int k" unfolding N by blast
    moreover have "k < N - 1" using k l(4) by simp
    ultimately show "length (inbox ! k) = N - 1 - k" by simp
  qed
  obtain st out where
    r: "all_to_all_personalized wtime msg_arr res0 buf0 (int p) (int N) inbox = Some (st, out)"
    and v: "res_arr st ! p = msg_arr ! p"
    and w: "res_writes st = map (\<lambda>j. int ((N + p - j) mod N)) [0..<N]"
    using all_to_all_personalized_run [OF pN l e, of wtime] by auto
  have c: "\<forall>k. count_list (res_writes st) k = (if 0 \<le> k \<and> k < int N then 1 else 0)"
    unfolding w using origin_count [OF pN] by blast
  show ?thesis unfolding p N using r v c by simp
qed

lemma round_shrink:
  assumes "p < N" "0 < i" "i < N" "length (buf st) = N - 1" "length (res_arr st) = N"
    "length m = N - i"
  shows "\<exists>payload st1 st2 payload' st3.
           round_send wtime (int p) (int N) (int i) st = Some (payload, st1) \<and>
           length payload = N - i \<and>
           round_recv wtime (int p) (int N) (int i) m st1 = Some st2 \<and>
           round_send wtime (int p) (int N) (int i + 1) st2 = Some (payload', st3) \<and>
           length payload' = N - i - 1 \<and>
           payload' = take (dindex p N i) m @ drop (dindex p N i + 1) m"
proof -
  define st1 where "st1 = st\<lparr>time_taken := wtime (ticks st) - time_taken st, ticks := ticks st + 1\<rparr>"
  let ?b = "m @ drop (length m) (buf st1)"
  let ?d = "dindex p N i"
  define st2 where "st2 = st1\<lparr>buf := shift_left ?d (N - i) ?b,
      res_arr := (res_arr st1)[(N + p - i) mod N := ?b ! ?d],
      res_writes := res_writes st1 @ [int ((N + p - i) mod N)],
      time_taken := time_taken st1 + (wtime (ticks st1 + 1) - wtime (ticks st1)),
      ticks := ticks st1 + 2\<rparr>"
  define st3 where "st3 = st2\<lparr>time_taken := wtime (ticks st2) - time_taken st2, ticks := ticks st2 + 1\<rparr>"
  have s: "round_send wtime (int p) (int N) (int i) st = Some (take (N - i) (buf st), st1)"
    unfolding st1_def by (rule round_send_Some) (use assms in simp_all)
  have r: "round_recv wtime (int p) (int N) (int i) m st1 = Some st2"
    unfolding st2_def by (rule round_recv_Some) (use assms in \<open>simp_all add: st1_def\<close>)
  have lb: "length ?b = N - 1" using assms by (simp add: st1_def)
  have l2: "length (buf st2) = N - 1" using lb by (simp add: st2_def)
  have "round_send wtime (int p) (int N) (int (Suc i)) st2
        = Some (take (N - Suc i) (buf st2), st3)"
    unfolding st3_def by (rule round_send_Some) (use assms l2 in simp_all)
  then have s': "round_send wtime (int p) (int N) (int i + 1) st2
        = Some (take (N - Suc i) (buf st2), st3)"
    by (simp add: add.commute)
  have d: "?d < N - i" using assms(1-3) by (rule dindex_less)
  have "take (N - i - 1) (shift_left ?d (N - i) ?b) = take ?d ?b @ drop (Suc ?d) (take (N - i) ?b)"
    by (rule take_shift_left) (use d lb assms in simp_all)
  also have "\<dots> = take ?d m @ drop (?d + 1) m" using d assms(6) by simp
  finally have t: "take (N - Suc i) (buf st2) = take ?d m @ drop (?d + 1) m"
    by (simp add: st2_def)
  have lp: "length (take (N - i) (buf st)) = N - i" using assms by simp
  have lp': "length (take (N - Suc i) (buf st2)) = N - i - 1" using l2 assms by simp
  show ?thesis using s lp r s' lp' t by blast
qed

subsection \<open>The values stored by the rounds\<close>

lemma a2a_rounds_res:
  assumes p: "p < N"
  shows "0 < i \<Longrightarrow> i \<le> N \<Longrightarrow> length (buf st) = N - 1 \<Longrightarrow> length (res_arr st) = N \<Longrightarrow>
     length inbox = N - i \<Longrightarrow> (\<forall>k<length inbox. length (inbox ! k) = N - i - k) \<Longrightarrow>
     a2a_rounds wtime (int p) (int N) (int i) inbox st = Some (st', out) \<Longrightarrow>
     (\<forall>j. i \<le> j \<and> j < N \<longrightarrow>
          res_arr st' ! ((N + p - j) mod N) = inbox ! (j - i) ! dindex p N j) \<and>
     (\<forall>k<N. (\<forall>j. i \<le> j \<and> j < N \<longrightarrow> (N + p - j) mod N \<noteq> k) \<longrightarrow>
          res_arr st' ! k = res_arr st ! k)"
proof (induction inbox arbitrary: i st out)
  case Nil
  then have "i = N" by simp
  then have "a2a_rounds wtime (int p) (int N) (int i) [] st = Some (st, [])"
    by (subst a2a_rounds.simps) simp
  with Nil.prems(7) have "st' = st" by simp
  with \<open>i = N\<close> show ?case by simp
next
  case (Cons m ms)
  have i: "0 < i" "i < N" using Cons.prems by simp_all
  have lm: "length m = N - i" using Cons.prems(6) by auto
  define st1 where "st1 = st\<lparr>time_taken := wtime (ticks st) - time_taken st, ticks := ticks st + 1\<rparr>"
  let ?b = "m @ drop (length m) (buf st1)"
  let ?o = "(N + p - i) mod N"
  define st2 where "st2 = st1\<lparr>buf := shift_left (dindex p N i) (N - i) ?b,
      res_arr := (res_arr st1)[?o := ?b ! dindex p N i],
      res_writes := res_writes st1 @ [int ?o],
      time_taken := time_taken st1 + (wtime (ticks st1 + 1) - wtime (ticks st1)),
      ticks := ticks st1 + 2\<rparr>"
  have s: "round_send wtime (int p) (int N) (int i) st = Some (take (N - i) (buf st), st1)"
    unfolding st1_def by (rule round_send_Some) (use i Cons.prems in simp_all)
  have r: "round_recv wtime (int p) (int N) (int i) m st1 = Some st2"
    unfolding st2_def
    by (rule round_recv_Some) (use p i lm Cons.prems in \<open>simp_all add: st1_def\<close>)
  have l2: "length (buf st2) = N - 1" "length (res_arr st2) = N"
    using Cons.prems lm by (simp_all add: st2_def st1_def)
  have lms: "length ms = N - Suc i" using Cons.prems(5) by simp
  have each: "\<forall>k<length ms. length (ms ! k) = N - Suc i - k"
  proof (intro allI impI)
    fix k assume "k < length ms"
    then have "Suc k < length (m # ms)" by simp
    with Cons.prems(6) have "length ((m # ms) ! Suc k) = N - i - Suc k" by blast
    then show "length (ms ! k) = N - Suc i - k" by simp
  qed
  have e: "int i + 1 = int (Suc i)" by simp
  have "a2a_rounds wtime (int p) (int N) (int i) (m # ms) st
        = Option.bind (a2a_rounds wtime (int p) (int N) (int (Suc i)) ms st2)
            (\<lambda>(st3, out). Some (st3, take (N - i) (buf st) # out))"
    using i by (subst a2a_rounds.simps) (simp add: s r e del: of_nat_Suc)
  with Cons.prems(7) obtain out' where
    rec: "a2a_rounds wtime (int p) (int N) (int (Suc i)) ms st2 = Some (st', out')"
    by (auto simp: bind_eq_Some_conv)
  have ih1: "res_arr st' ! ((N + p - j) mod N) = ms ! (j - Suc i) ! dindex p N j"
    if "Suc i \<le> j" "j < N" for j
    using Cons.IH [of "Suc i" st2 out'] i l2 lms each rec that by simp
  have ih2: "res_arr st' ! k = res_arr st2 ! k"
    if "k < N" "\<And>j. Suc i \<le> j \<Longrightarrow> j < N \<Longrightarrow> (N + p - j) mod N \<noteq> k" for k
    using Cons.IH [of "Suc i" st2 out'] i l2 lms each rec that by simp
  have oN: "?o < N" using i by simp
  have di: "dindex p N i < length m" using dindex_less [OF p i] lm by simp
  have here: "res_arr st' ! ?o = m ! dindex p N i"
  proof -
    have "res_arr st' ! ?o = res_arr st2 ! ?o"
    proof (rule ih2 [OF oN])
      fix j assume j: "Suc i \<le> j" "j < N"
      show "(N + p - j) mod N \<noteq> ?o"
      proof
        assume "(N + p - j) mod N = ?o"
        then have "j = i" using p j i by (intro origin_inj [of p N j i]) simp_all
        with j show False by simp
      qed
    qed
    also have "\<dots> = ?b ! dindex p N i"
      using oN Cons.prems(4) by (simp add: st2_def st1_def)
    also have "\<dots> = m ! dindex p N i" using di by (simp add: nth_append)
    finally show ?thesis .
  qed
  show ?case
  proof (intro conjI allI impI)
    fix j assume j: "i \<le> j \<and> j < N"
    show "res_arr st' ! ((N + p - j) mod N) = (m # ms) ! (j - i) ! dindex p N j"
    proof (cases "j = i")
      case True
      then show ?thesis using here by simp
    next
      case False
      with j have j': "Suc i \<le> j" "j < N" by simp_all
      then have "j - i = Suc (j - Suc i)" by simp
      then show ?thesis using ih1 [OF j'] by simp
    qed
  next
    fix k assume k: "k < N" and f: "\<forall>j. i \<le> j \<and> j < N \<longrightarrow> (N + p - j) mod N \<noteq> k"
    have "res_arr st' ! k = res_arr st2 ! k"
      by (rule ih2 [OF k]) (use f in simp)
    moreover have "?o \<noteq> k" using f i by simp
    ultimately show "res_arr st' ! k = res_arr st ! k"
      by (simp add: st2_def st1_def)
  qed
qed

lemma hop_of_slot:
  fixes N p a :: nat
  assumes "p < N" "a < N" "a \<noteq> p"
  shows "0 < (N + p - a) mod N" "(N + p - a) mod N < N"
    "(N + p - (N + p - a) mod N) mod N = a"
    "int ((N + p - a) mod N) = (int p - int a) mod int N"
proof -
  show inv: "(N + p - (N + p - a) mod N) mod N = a" using assms(1,2) by (rule origin_invol)
  show "(N + p - a) mod N < N" using assms by simp
  show "0 < (N + p - a) mod N"
  proof (rule ccontr)
    assume "\<not> 0 < (N + p - a) mod N"
    then have "(N + p - a) mod N = 0" by simp
    with inv have "(N + p - 0) mod N = a" by simp
    with assms show False by simp
  qed
  have "int ((N + p - a) mod N) = (int N + int p - int a) mod int N"
    using assms by (simp add: zmod_int of_nat_diff)
  also have "int N + int p - int a = (int p - int a) + int N" by simp
  also have "((int p - int a) + int N) mod int N = (int p - int a) mod int N" by simp
  finally show "int ((N + p - a) mod N) = (int p - int a) mod int N" .
qed

lemma all_to_all_personalized_res:
  assumes "p < N" "length msg_arr = N" "length res0 = N" "length buf0 = N - 1"
    "length inbox = N - 1" "\<forall>k<length inbox. length (inbox ! k) = N - 1 - k"
    "all_to_all_personalized wtime msg_arr res0 buf0 (int p) (int N) inbox = Some (st, out)"
    "a < N" "a \<noteq> p"
  shows "res_arr st ! a = inbox ! ((N + p - a) mod N - 1) ! dindex p N ((N + p - a) mod N)"
proof -
  define st0 where "st0 = \<lparr>buf = take p msg_arr @ drop (Suc p) msg_arr,
      res_arr = res0[p := msg_arr ! p], res_writes = [int p], time_taken = wtime 0, ticks = 1\<rparr>"
  have i: "a2a_init wtime msg_arr res0 buf0 (int p) (int N) = Some st0"
    unfolding st0_def using assms(1-4) by (rule a2a_init_Some)
  have r: "a2a_rounds wtime (int p) (int N) (int 1) inbox st0 = Some (st, out)"
    using assms(7) i by (simp add: all_to_all_personalized_def)
  let ?j = "(N + p - a) mod N"
  have j: "0 < ?j" "?j < N" "(N + p - ?j) mod N = a"
    using hop_of_slot [OF assms(1) assms(8,9)] by simp_all
  have "(\<forall>j. 1 \<le> j \<and> j < N \<longrightarrow>
          res_arr st ! ((N + p - j) mod N) = inbox ! (j - 1) ! dindex p N j) \<and>
     (\<forall>k<N. (\<forall>j. 1 \<le> j \<and> j < N \<longrightarrow> (N + p - j) mod N \<noteq> k) \<longrightarrow>
          res_arr st ! k = res_arr st0 ! k)"
    by (rule a2a_rounds_res [OF assms(1) _ _ _ _ _ _ r])
       (use assms in \<open>simp_all add: st0_def\<close>)
  then have h: "\<And>j. 1 \<le> j \<Longrightarrow> j < N \<Longrightarrow>
          res_arr st ! ((N + p - j) mod N) = inbox ! (j - 1) ! dindex p N j"
    by blast
  have j1: "1 \<le> ?j" using j(1) by linarith
  have "res_arr st ! ((N + p - ?j) mod N) = inbox ! (?j - 1) ! dindex p N ?j"
    using j1 j(2) by (rule h)
  then show ?thesis unfolding j(3) .
qed

subsection \<open>The ring runs all\_to\_all\_personalized at every rank\<close>

lemma those_Some_nth:
  "those xs = Some ys \<Longrightarrow> length ys = length xs \<and> (\<forall>k<length xs. xs ! k = Some (ys ! k))"
proof (induction xs arbitrary: ys)
  case Nil
  then show ?case by simp
next
  case (Cons x xs)
  then obtain y zs where x: "x = Some y" and z: "those xs = Some zs" and ys: "ys = y # zs"
    by (auto split: option.splits)
  from Cons.IH [OF z] have l: "length zs = length xs"
    and n: "\<And>k. k < length xs \<Longrightarrow> xs ! k = Some (zs ! k)" by simp_all
  show ?case
  proof (intro conjI allI impI)
    show "length ys = length (x # xs)" using l ys by simp
  next
    fix k assume "k < length (x # xs)"
    then show "(x # xs) ! k = Some (ys ! k)"
      using x ys n by (cases k) simp_all
  qed
qed

lemma ring_round_nth:
  assumes "ring_round clk N i sts = Some sts'" "p < N"
  shows "\<exists>sent. (\<forall>q<N. round_send (clk q) (int q) (int N) (int i) (sts ! q) = Some (sent ! q)) \<and>
           round_recv (clk p) (int p) (int N) (int i)
             (fst (sent ! nat (recv_from (int p) (int N)))) (snd (sent ! p)) = Some (sts' ! p)"
proof -
  obtain sent where
    s: "those (map (\<lambda>p. round_send (clk p) (int p) (int N) (int i) (sts ! p)) [0..<N]) = Some sent"
    and r: "those (map (\<lambda>p. round_recv (clk p) (int p) (int N) (int i)
                 (fst (sent ! nat (recv_from (int p) (int N)))) (snd (sent ! p))) [0..<N])
            = Some sts'"
    using assms(1) by (auto simp: ring_round_def bind_eq_Some_conv)
  have a: "\<forall>q<N. round_send (clk q) (int q) (int N) (int i) (sts ! q) = Some (sent ! q)"
    using those_Some_nth [OF s] by simp
  have "round_recv (clk p) (int p) (int N) (int i)
             (fst (sent ! nat (recv_from (int p) (int N)))) (snd (sent ! p)) = Some (sts' ! p)"
    using those_Some_nth [OF r] assms(2) by simp
  with a show ?thesis by blast
qed

lemma ring_deliver_eq:
  assumes "ring_run clk msgs ress bufs N k = Some sts" "ring_inv msgs N k sts" "Suc k < N" "p < N"
  shows "ring_deliver clk msgs ress bufs N p (Suc k)
         = take (N - Suc k) (buf (sts ! ((p + N - 1) mod N)))"
proof -
  let ?q = "(p + N - 1) mod N"
  have N: "0 < N" using assms(4) by simp
  have q: "?q < N" using N by simp
  have rf: "nat (recv_from (int p) (int N)) = ?q" using N by (simp add: recv_from_nat)
  have ms: "msg_size (int N) (int (Suc k)) = int (N - Suc k)"
    using assms(3) by (simp add: msg_size_def of_nat_diff)
  have "mpi_send (buf (sts ! ?q)) (int (N - Suc k)) = Some (take (N - Suc k) (buf (sts ! ?q)))"
    using ring_invD(1) [OF assms(2) q] by (simp add: mpi_send_def)
  then show ?thesis
    unfolding ring_deliver_def rf ms using assms(1) by simp
qed

lemma succ_pred_rank:
  fixes N p :: nat
  assumes "p < N"
  shows "((p + 1) mod N + N - 1) mod N = p"
proof (cases "Suc p = N")
  case True
  then have "(p + 1) mod N = 0" by simp
  with True assms show ?thesis by simp
next
  case False
  with assms have "(p + 1) mod N = p + 1" by simp
  then have "((p + 1) mod N + N - 1) mod N = (p + N) mod N" by simp
  with assms show ?thesis by simp
qed

lemma ring_tail:
  assumes wf: "length msgs = N" "\<forall>m\<in>set msgs. length m = N"
    "length ress = N" "\<forall>r\<in>set ress. length r = N"
    "length bufs = N" "\<forall>c\<in>set bufs. length c = N - 1"
    and p: "p < N"
    and fin: "ring_run clk msgs ress bufs N (N - 1) = Some stsF"
  shows "N - 1 - k = d \<Longrightarrow> k < N \<Longrightarrow> ring_run clk msgs ress bufs N k = Some sts \<Longrightarrow>
     a2a_rounds (clk p) (int p) (int N) (int (Suc k))
       (map (ring_deliver clk msgs ress bufs N p) [Suc k..<N]) (sts ! p)
     = Some (stsF ! p, map (ring_deliver clk msgs ress bufs N ((p + 1) mod N)) [Suc k..<N])"
proof (induction d arbitrary: k sts)
  case 0
  then have k: "Suc k = N" by simp
  have "sts = stsF" using 0(3) fin k by (cases N) auto
  then show ?case unfolding k by (subst a2a_rounds.simps) simp
next
  case (Suc d)
  let ?i = "Suc k"
  let ?D = "ring_deliver clk msgs ress bufs N"
  have i: "?i < N" using Suc.prems by simp
  obtain sts0 where r0: "ring_run clk msgs ress bufs N k = Some sts0"
    and v0: "ring_inv msgs N k sts0"
    using wf Suc.prems(2) by (rule ring_run_wf)
  have v: "ring_inv msgs N k sts" using r0 v0 Suc.prems(3) by simp
  obtain sts' where r': "ring_run clk msgs ress bufs N ?i = Some sts'"
    using wf i by (rule ring_run_wf)
  have rr: "ring_round clk N ?i sts = Some sts'"
    using Suc.prems(3) r' unfolding ring_run_Suc by simp
  obtain sent where
    sd: "\<And>q. q < N \<Longrightarrow> round_send (clk q) (int q) (int N) (int ?i) (sts ! q) = Some (sent ! q)"
    and rc: "round_recv (clk p) (int p) (int N) (int ?i)
             (fst (sent ! nat (recv_from (int p) (int N)))) (snd (sent ! p)) = Some (sts' ! p)"
    using ring_round_nth [OF rr p] by blast
  have N: "0 < N" using p by simp
  let ?q = "(p + N - 1) mod N"
  have q: "?q < N" using N by simp
  have rf: "nat (recv_from (int p) (int N)) = ?q" using N by (simp add: recv_from_nat)
  have fs: "fst (sent ! q) = take (N - ?i) (buf (sts ! q))" if "q < N" for q
  proof -
    have "round_send (clk q) (int q) (int N) (int ?i) (sts ! q)
          = Some (take (N - ?i) (buf (sts ! q)),
                  (sts ! q)\<lparr>time_taken := clk q (ticks (sts ! q)) - time_taken (sts ! q),
                            ticks := ticks (sts ! q) + 1\<rparr>)"
      by (rule round_send_Some) (use i ring_invD(1) [OF v that] in simp_all)
    with sd [OF that] show ?thesis by simp
  qed
  have dl: "?D p ?i = fst (sent ! ?q)"
    using ring_deliver_eq [OF Suc.prems(3) v i p] fs [OF q] by simp
  have sp: "(p + 1) mod N < N" using N by simp
  have dl': "?D ((p + 1) mod N) ?i = fst (sent ! p)"
    using ring_deliver_eq [OF Suc.prems(3) v i sp] fs [OF p] succ_pred_rank [OF p] by simp
  have ih: "a2a_rounds (clk p) (int p) (int N) (int (Suc ?i)) (map (?D p) [Suc ?i..<N]) (sts' ! p)
            = Some (stsF ! p, map (?D ((p + 1) mod N)) [Suc ?i..<N])"
    using Suc.IH [of ?i sts'] Suc.prems i r' by simp
  have u: "[?i..<N] = ?i # [Suc ?i..<N]" using i by (simp add: upt_conv_Cons)
  have e: "int ?i + 1 = int (Suc ?i)" by simp
  obtain pay st1 where ps: "sent ! p = (pay, st1)" by (cases "sent ! p")
  have sdp: "round_send (clk p) (int p) (int N) (int ?i) (sts ! p) = Some (pay, st1)"
    using sd [OF p] ps by simp
  have rcp: "round_recv (clk p) (int p) (int N) (int ?i) (?D p ?i) st1 = Some (sts' ! p)"
    using rc ps unfolding rf dl by simp
  have dp: "?D ((p + 1) mod N) ?i = pay" using dl' ps by simp
  have "a2a_rounds (clk p) (int p) (int N) (int ?i) (?D p ?i # map (?D p) [Suc ?i..<N]) (sts ! p)
        = Some (stsF ! p, pay # map (?D ((p + 1) mod N)) [Suc ?i..<N])"
    by (subst a2a_rounds.simps) (use i in \<open>simp add: sdp rcp e ih del: of_nat_Suc\<close>)
  then show ?case
    unfolding u list.map dp .
qed

lemma ring_is_all_to_all_personalized:
  assumes wf: "length msgs = N" "\<forall>m\<in>set msgs. length m = N"
    "length ress = N" "\<forall>r\<in>set ress. length r = N"
    "length bufs = N" "\<forall>c\<in>set bufs. length c = N - 1"
    and p: "p < N"
  shows "\<exists>sts. ring_exchange clk msgs ress bufs N = Some sts \<and>
           all_to_all_personalized (clk p) (msgs ! p) (ress ! p) (bufs ! p) (int p) (int N)
             (ring_inbox clk msgs ress bufs N p)
           = Some (sts ! p, ring_inbox clk msgs ress bufs N (nat (send_to (int p) (int N))))"
proof -
  have N: "0 < N" using p by simp
  then have "N - 1 < N" by simp
  with wf obtain stsF where fin: "ring_run clk msgs ress bufs N (N - 1) = Some stsF"
    by (rule ring_run_wf)
  from wf N obtain sts0 where r0: "ring_run clk msgs ress bufs N 0 = Some sts0"
    by (rule ring_run_wf)
  then have "ring_init clk msgs ress bufs N = Some sts0" by (simp add: ring_run_def)
  then have "a2a_init (clk p) (msgs ! p) (ress ! p) (bufs ! p) (int p) (int N) = Some (sts0 ! p)"
    unfolding ring_init_def using those_Some_nth [of _ sts0] p by fastforce
  moreover have "a2a_rounds (clk p) (int p) (int N) (int (Suc 0))
       (map (ring_deliver clk msgs ress bufs N p) [Suc 0..<N]) (sts0 ! p)
     = Some (stsF ! p, map (ring_deliver clk msgs ress bufs N ((p + 1) mod N)) [Suc 0..<N])"
    using wf p fin _ N r0 by (rule ring_tail) simp
  moreover have "nat (send_to (int p) (int N)) = (p + 1) mod N"
    using N by (simp add: send_to_nat)
  ultimately show ?thesis
    using fin by (simp add: all_to_all_personalized_def ring_inbox_def ring_exchange_def)
qed

subsection \<open>The range of the rank arithmetic\<close>

lemma rank_arith_range:
  assumes "0 \<le> rank" "rank < num_proc" "1 \<le> i" "i < num_proc"
  shows "0 \<le> rank + 1 \<and> rank + 1 < 2 * num_proc"
    and "0 \<le> rank + num_proc - 1 \<and> rank + num_proc - 1 < 2 * num_proc"
    and "0 \<le> num_proc + rank - i \<and> num_proc + rank - i < 2 * num_proc"
    and "0 < msg_size num_proc i \<and> msg_size num_proc i < num_proc"
    and "0 \<le> data_index rank num_proc i \<and> data_index rank num_proc i < num_proc"
proof -
  show "0 \<le> rank + 1 \<and> rank + 1 < 2 * num_proc" using assms by simp
  show "0 \<le> rank + num_proc - 1 \<and> rank + num_proc - 1 < 2 * num_proc" using assms by simp
  show "0 \<le> num_proc + rank - i \<and> num_proc + rank - i < 2 * num_proc" using assms by simp
  show "0 < msg_size num_proc i \<and> msg_size num_proc i < num_proc"
    using assms by (simp add: msg_size_def)
  obtain p N j where q: "rank = int p" "num_proc = int N" "i = int j" "p < N" "0 < j" "j < N"
    using assms by (rule int_rank_cases)
  have "data_index (int p) (int N) (int j) = int (dindex p N j)"
    using q by (intro data_index_nat) simp_all
  moreover have "dindex p N j < N - j" using q(4-6) by (rule dindex_less)
  ultimately show "0 \<le> data_index rank num_proc i \<and> data_index rank num_proc i < num_proc"
    unfolding q by simp
qed

section \<open>The claims\<close>

text \<open>
  Claim C1 (global transpose). For every \<open>N \<ge> 1\<close> and all ranks \<open>a, b < N\<close>: when the \<open>N\<close>
  processes run the exchange over the ring, the run completes, and afterwards the process
  \<open>b\<close> holds at \<open>res_arr[a]\<close> the value that the process \<open>a\<close> held at \<open>msg_arr[b]\<close> before.
  The final state of \<open>b\<close> in the ring is the one that \<open>all_to_all_personalized\<close> returns at
  rank \<open>b\<close> when it receives, round by round, what its predecessor sent.
\<close>

theorem ring_exchange_transpose:
  assumes "1 \<le> N" "a < N" "b < N"
    "length msgs = N" "\<forall>m\<in>set msgs. length m = N"
    "length ress = N" "\<forall>r\<in>set ress. length r = N"
    "length bufs = N" "\<forall>c\<in>set bufs. length c = N - 1"
  shows "\<exists>sts. ring_exchange clk msgs ress bufs N = Some sts \<and> length sts = N \<and>
           res_arr (sts ! b) ! a = msgs ! a ! b \<and>
           map_option fst
             (all_to_all_personalized (clk b) (msgs ! b) (ress ! b) (bufs ! b) (int b) (int N)
                (ring_inbox clk msgs ress bufs N b)) = Some (sts ! b)"
proof -
  have "N - 1 < N" using assms(1) by simp
  with assms(4-9) obtain sts where r: "ring_run clk msgs ress bufs N (N - 1) = Some sts"
    and v: "ring_inv msgs N (N - 1) sts"
    by (rule ring_run_wf)
  let ?j = "(N + b - a) mod N"
  have "?j < N" using assms(1) by simp
  then have j: "?j \<le> N - 1" by arith
  have "res_arr (sts ! b) ! ((N + b - ?j) mod N) = msgs ! ((N + b - ?j) mod N) ! b"
    by (rule ring_invD(4) [OF v assms(3) j])
  moreover have "(N + b - ?j) mod N = a"
    using assms(3,2) by (rule origin_invol)
  moreover have "length sts = N" using v by (simp add: ring_inv_def)
  moreover have "map_option fst
             (all_to_all_personalized (clk b) (msgs ! b) (ress ! b) (bufs ! b) (int b) (int N)
                (ring_inbox clk msgs ress bufs N b)) = Some (sts ! b)"
    using ring_is_all_to_all_personalized [OF assms(4-9) assms(3), of clk] r
    by (auto simp: ring_exchange_def)
  ultimately show ?thesis using r by (simp add: ring_exchange_def)
qed

theorem ring_exchange_transpose_witness:
  "\<exists>sts. ring_exchange (\<lambda>p k. 0) [[10, 20, 30], [40, 50, 60], [70, 80, 90]]
            [[0, 0, 0], [0, 0, 0], [0, 0, 0]] [[0, 0], [0, 0], [0, 0]] 3 = Some sts \<and>
         length sts = 3 \<and> res_arr (sts ! 2) ! 0 = 30"
proof -
  let ?msgs = "[[10, 20, 30], [40, 50, 60], [70, 80, 90]] :: int list list"
  let ?ress = "[[0, 0, 0], [0, 0, 0], [0, 0, 0]] :: int list list"
  let ?bufs = "[[0, 0], [0, 0], [0, 0]] :: int list list"
  have "\<exists>sts. ring_exchange (\<lambda>p k. 0) ?msgs ?ress ?bufs 3 = Some sts \<and> length sts = 3 \<and>
           res_arr (sts ! 2) ! 0 = ?msgs ! 0 ! 2 \<and>
           map_option fst
             (all_to_all_personalized (\<lambda>k. 0) (?msgs ! 2) (?ress ! 2) (?bufs ! 2) (int 2) (int 3)
                (ring_inbox (\<lambda>p k. 0) ?msgs ?ress ?bufs 3 2)) = Some (sts ! 2)"
    by (rule ring_exchange_transpose) simp_all
  then obtain sts where "ring_exchange (\<lambda>p k. 0) ?msgs ?ress ?bufs 3 = Some sts"
    and "length sts = 3" and "res_arr (sts ! 2) ! 0 = ?msgs ! 0 ! 2"
    by blast
  then show ?thesis by simp
qed

text \<open>
  Claim C2 (circulating buffer). For \<open>N \<ge> 2\<close>, every rank \<open>p\<close> and every round
  \<open>i = 1, \<dots>, N - 1\<close>: at the start of round \<open>i\<close> (after \<open>i - 1\<close> rounds) the first
  \<open>N - i\<close> cells of the buffer of \<open>p\<close>, which are the cells it is about to send, are the
  values that one rank addressed to the destinations \<open>ds\<close>, where \<open>ds\<close> has \<open>N - i\<close> entries,
  is strictly increasing, and does not contain \<open>p\<close>. The case \<open>i = 1\<close> is the buffer as first
  built; the later cases are the buffer after each receive, extraction and compaction.
\<close>

theorem circulating_buffer_invariant:
  assumes "2 \<le> N" "p < N" "1 \<le> i" "i < N"
    "length msgs = N" "\<forall>m\<in>set msgs. length m = N"
    "length ress = N" "\<forall>r\<in>set ress. length r = N"
    "length bufs = N" "\<forall>c\<in>set bufs. length c = N - 1"
  shows "\<exists>sts ds. ring_run clk msgs ress bufs N (i - 1) = Some sts \<and>
           length ds = N - i \<and> sorted_wrt (<) ds \<and> set ds \<subseteq> {0..<N} - {p} \<and>
           take (nat (msg_size (int N) (int i))) (buf (sts ! p))
             = map (\<lambda>d. msgs ! ((N + p - (i - 1)) mod N) ! d) ds"
proof -
  let ?o = "(N + p - (i - 1)) mod N"
  have "i - 1 < N" using assms(4) by simp
  with assms(5-10) obtain sts where r: "ring_run clk msgs ress bufs N (i - 1) = Some sts"
    and v: "ring_inv msgs N (i - 1) sts"
    by (rule ring_run_wf)
  have ms: "nat (msg_size (int N) (int i)) = N - i"
    using assms(4) by (simp add: msg_size_def)
  have e: "N - 1 - (i - 1) = N - i" using assms(3) by simp
  have t: "take (N - i) (buf (sts ! p)) = map (\<lambda>d. msgs ! ?o ! d) (dests N ?o p)"
    using ring_invD(3) [OF v assms(2)] unfolding e .
  have "length (take (N - i) (buf (sts ! p))) = N - i"
    using ring_invD(1) [OF v assms(2)] assms(3) by simp
  then have l: "length (dests N ?o p) = N - i" unfolding t by simp
  have o: "?o < N" using assms(1) by simp
  have s: "set (dests N ?o p) \<subseteq> {0..<N} - {p}"
    using dests_set [OF o assms(2)] by auto
  show ?thesis using r l dests_sorted [of N ?o p] s t ms by auto
qed

theorem circulating_buffer_invariant_witness:
  "\<exists>sts ds. ring_run (\<lambda>p k. 0) [[10, 20, 30], [40, 50, 60], [70, 80, 90]]
            [[0, 0, 0], [0, 0, 0], [0, 0, 0]] [[0, 0], [0, 0], [0, 0]] 3 (2 - 1) = Some sts \<and>
         length ds = 1 \<and> sorted_wrt (<) ds \<and> set ds \<subseteq> {0..<3} - {0} \<and>
         take (nat (msg_size 3 2)) (buf (sts ! 0)) = map (\<lambda>d. [70, 80, 90] ! d) ds"
proof -
  let ?msgs = "[[10, 20, 30], [40, 50, 60], [70, 80, 90]] :: int list list"
  let ?ress = "[[0, 0, 0], [0, 0, 0], [0, 0, 0]] :: int list list"
  let ?bufs = "[[0, 0], [0, 0], [0, 0]] :: int list list"
  have "\<exists>sts ds. ring_run (\<lambda>p k. 0) ?msgs ?ress ?bufs 3 (2 - 1) = Some sts \<and>
           length ds = 3 - 2 \<and> sorted_wrt (<) ds \<and> set ds \<subseteq> {0..<3} - {0} \<and>
           take (nat (msg_size (int 3) (int 2))) (buf (sts ! 0))
             = map (\<lambda>d. ?msgs ! ((3 + 0 - (2 - 1)) mod 3) ! d) ds"
    by (rule circulating_buffer_invariant) simp_all
  then show ?thesis by simp
qed

text \<open>
  Claim C3 (extraction rule). For \<open>N \<ge> 2\<close>, every rank \<open>p\<close> and every round
  \<open>i = 1, \<dots>, N - 1\<close>: \<open>origin\<close> is \<open>(N + rank - i) mod N\<close>, the rank at ring distance \<open>i\<close>
  before \<open>p\<close>; the message \<open>m\<close> that the predecessor sends in round \<open>i\<close> holds at
  \<open>data_index\<close> (that is \<open>origin\<close> if \<open>origin \<le> rank\<close>, else \<open>0\<close>) the value that \<open>origin\<close>
  addressed to \<open>p\<close>; and after the round \<open>res_arr[origin]\<close> of \<open>p\<close> holds that element.
\<close>

theorem extraction_rule:
  assumes "2 \<le> N" "p < N" "1 \<le> i" "i < N"
    "length msgs = N" "\<forall>m\<in>set msgs. length m = N"
    "length ress = N" "\<forall>r\<in>set ress. length r = N"
    "length bufs = N" "\<forall>c\<in>set bufs. length c = N - 1"
  shows "\<exists>sts sts' m. ring_run clk msgs ress bufs N (i - 1) = Some sts \<and>
           ring_round clk N i sts = Some sts' \<and>
           mpi_send (buf (sts ! nat (recv_from (int p) (int N)))) (msg_size (int N) (int i)) = Some m \<and>
           origin (int p) (int N) (int i) = (int N + int p - int i) mod int N \<and>
           (int p - origin (int p) (int N) (int i)) mod int N = int i \<and>
           m ! nat (data_index (int p) (int N) (int i))
             = msgs ! nat (origin (int p) (int N) (int i)) ! p \<and>
           res_arr (sts' ! p) ! nat (origin (int p) (int N) (int i))
             = m ! nat (data_index (int p) (int N) (int i))"
proof -
  obtain k where k: "i = Suc k" using assms(3) by (cases i) simp_all
  have N: "0 < N" "i \<le> N + p" using assms by simp_all
  have "k < N" using assms(4) k by simp
  with assms(5-10) obtain sts where r: "ring_run clk msgs ress bufs N k = Some sts"
    and v: "ring_inv msgs N k sts"
    by (rule ring_run_wf)
  from assms(5-10) assms(4) obtain sts' where r': "ring_run clk msgs ress bufs N i = Some sts'"
    and v': "ring_inv msgs N i sts'"
    by (rule ring_run_wf)
  have rr: "ring_round clk N i sts = Some sts'"
    using r r' unfolding k ring_run_Suc by simp
  let ?q = "(p + N - 1) mod N"
  let ?o = "(N + p - i) mod N"
  have q: "?q < N" using N by simp
  have rf: "nat (recv_from (int p) (int N)) = ?q" using N by (simp add: recv_from_nat)
  have og: "origin (int p) (int N) (int i) = int ?o" using N by (rule origin_nat)
  have dg: "data_index (int p) (int N) (int i) = int (dindex p N i)" using N by (rule data_index_nat)
  have ms: "msg_size (int N) (int i) = int (N - i)"
    using assms(4) by (simp add: msg_size_def of_nat_diff)
  have snd: "mpi_send (buf (sts ! ?q)) (int (N - i)) = Some (take (N - i) (buf (sts ! ?q)))"
    using ring_invD(1) [OF v q] assms(3) by (simp add: mpi_send_def)
  have ex: "take (N - i) (buf (sts ! ?q)) ! dindex p N i = msgs ! ?o ! p"
    unfolding k using v assms(2) assms(4) [unfolded k] by (rule ring_inv_extract)
  have rs: "res_arr (sts' ! p) ! ?o = msgs ! ?o ! p"
    by (rule ring_invD(4) [OF v' assms(2)]) simp
  have o1: "int ?o = (int N + int p - int i) mod int N"
    using N by (simp add: zmod_int of_nat_diff)
  have hd: "(int p - int ?o) mod int N = int i"
    using assms(2-4) by (intro hop_distance) simp_all
  let ?m = "take (N - i) (buf (sts ! ?q))"
  have c1: "ring_run clk msgs ress bufs N (i - 1) = Some sts" using r by (simp add: k)
  have c3: "mpi_send (buf (sts ! nat (recv_from (int p) (int N)))) (msg_size (int N) (int i)) = Some ?m"
    unfolding rf ms by (rule snd)
  have c4: "origin (int p) (int N) (int i) = (int N + int p - int i) mod int N"
    unfolding og by (rule o1)
  have c5: "(int p - origin (int p) (int N) (int i)) mod int N = int i"
    unfolding og by (rule hd)
  have c6: "?m ! nat (data_index (int p) (int N) (int i))
            = msgs ! nat (origin (int p) (int N) (int i)) ! p"
    unfolding og dg nat_int by (rule ex)
  have c7: "res_arr (sts' ! p) ! nat (origin (int p) (int N) (int i))
            = ?m ! nat (data_index (int p) (int N) (int i))"
    unfolding og dg nat_int using rs ex by simp
  show ?thesis using c1 rr c3 c4 c5 c6 c7 by blast
qed

theorem extraction_rule_witness:
  "\<exists>sts sts' m. ring_run (\<lambda>p k. 0) [[10, 20, 30], [40, 50, 60], [70, 80, 90]]
            [[0, 0, 0], [0, 0, 0], [0, 0, 0]] [[0, 0], [0, 0], [0, 0]] 3 (2 - 1) = Some sts \<and>
         ring_round (\<lambda>p k. 0) 3 2 sts = Some sts' \<and>
         mpi_send (buf (sts ! nat (recv_from 0 3))) (msg_size 3 2) = Some m \<and>
         origin 0 3 2 = 1 \<and> data_index 0 3 2 = 0 \<and> m ! 0 = 40 \<and> res_arr (sts' ! 0) ! 1 = 40"
proof -
  let ?msgs = "[[10, 20, 30], [40, 50, 60], [70, 80, 90]] :: int list list"
  let ?ress = "[[0, 0, 0], [0, 0, 0], [0, 0, 0]] :: int list list"
  let ?bufs = "[[0, 0], [0, 0], [0, 0]] :: int list list"
  have o: "origin 0 3 2 = 1" by (simp add: origin_def c_mod_def c_div_def)
  have d: "data_index 0 3 2 = 0" by (simp add: data_index_def o)
  have "\<exists>sts sts' m. ring_run (\<lambda>p k. 0) ?msgs ?ress ?bufs 3 (2 - 1) = Some sts \<and>
           ring_round (\<lambda>p k. 0) 3 2 sts = Some sts' \<and>
           mpi_send (buf (sts ! nat (recv_from (int 0) (int 3)))) (msg_size (int 3) (int 2)) = Some m \<and>
           origin (int 0) (int 3) (int 2) = (int 3 + int 0 - int 2) mod int 3 \<and>
           (int 0 - origin (int 0) (int 3) (int 2)) mod int 3 = int 2 \<and>
           m ! nat (data_index (int 0) (int 3) (int 2))
             = ?msgs ! nat (origin (int 0) (int 3) (int 2)) ! 0 \<and>
           res_arr (sts' ! 0) ! nat (origin (int 0) (int 3) (int 2))
             = m ! nat (data_index (int 0) (int 3) (int 2))"
    by (rule extraction_rule) simp_all
  then show ?thesis by (auto simp: o d)
qed

text \<open>
  Claim C4 (initial buffer construction). For \<open>0 \<le> rank < num_proc\<close> and a message vector
  of \<open>num_proc\<close> elements the loop returns a buffer of \<open>num_proc - 1\<close> cells with
  \<open>buf[k] = msg_arr[k]\<close> for \<open>k < rank\<close> and \<open>buf[k-1] = msg_arr[k]\<close> for \<open>k > rank\<close>: the
  buffer is the message vector with the cell \<open>rank\<close> taken out, whatever the array held
  before.
\<close>

theorem first_message_contract:
  assumes "0 \<le> rank" "rank < num_proc"
    "int (length msg_arr) = num_proc" "int (length buf0) = num_proc - 1"
  shows "\<exists>b. first_message msg_arr rank num_proc 0 buf0 = Some b \<and>
           int (length b) = num_proc - 1 \<and>
           (\<forall>k. 0 \<le> k \<and> k < rank \<longrightarrow> b ! nat k = msg_arr ! nat k) \<and>
           (\<forall>k. rank < k \<and> k < num_proc \<longrightarrow> b ! nat (k - 1) = msg_arr ! nat k) \<and>
           b = take (nat rank) msg_arr @ drop (nat rank + 1) msg_arr"
proof -
  let ?b = "fill_from (nat rank) 0 msg_arr buf0"
  have f: "first_message msg_arr rank num_proc 0 buf0 = Some ?b"
    using first_message_fill [of 0 rank num_proc msg_arr buf0] assms by simp
  have len: "int (length ?b) = num_proc - 1" using assms by simp
  have low: "?b ! nat k = msg_arr ! nat k" if "0 \<le> k" "k < rank" for k
  proof -
    have "nat k < length buf0" using that assms by simp
    moreover have "nat k < nat rank" using that by simp
    ultimately show ?thesis by (rule nth_fill_from_low)
  qed
  have high: "?b ! nat (k - 1) = msg_arr ! nat k" if "rank < k" "k < num_proc" for k
  proof -
    have "nat (k - 1) < length buf0" using that assms by simp
    moreover have "nat rank \<le> nat (k - 1)" using that assms by simp
    ultimately have "?b ! nat (k - 1) = msg_arr ! Suc (nat (k - 1))"
      by (rule nth_fill_from_high)
    moreover have "Suc (nat (k - 1)) = nat k" using that assms by simp
    ultimately show ?thesis by simp
  qed
  have td: "?b = take (nat rank) msg_arr @ drop (nat rank + 1) msg_arr"
    using fill_from_0 [of "nat rank" buf0 msg_arr] assms by simp
  show ?thesis using f len low high td by simp
qed

theorem first_message_contract_witness:
  "\<exists>b. first_message [40, 50, 60, 70] 1 4 0 [0, 0, 0] = Some b \<and> b = [40, 60, 70]"
proof -
  let ?m = "[40, 50, 60, 70] :: int list"
  have "\<exists>b. first_message ?m 1 4 0 [0, 0, 0] = Some b \<and>
           int (length b) = 4 - 1 \<and>
           (\<forall>k. 0 \<le> k \<and> k < 1 \<longrightarrow> b ! nat k = ?m ! nat k) \<and>
           (\<forall>k. 1 < k \<and> k < 4 \<longrightarrow> b ! nat (k - 1) = ?m ! nat k) \<and>
           b = take (nat 1) ?m @ drop (nat 1 + 1) ?m"
    by (rule first_message_contract) simp_all
  then show ?thesis by simp
qed

text \<open>
  Claim C5 (completeness). For every rank of a ring of \<open>num_proc\<close> processes (in particular
  for \<open>num_proc \<ge> 2\<close>), when the transport delivers a message of \<open>num_proc - i\<close> elements in
  each round \<open>i\<close>, the call returns, and over the whole call every cell \<open>res_arr[k]\<close> with
  \<open>0 \<le> k < num_proc\<close> is assigned exactly once, the first assignment of \<open>res_arr[rank]\<close>
  included, and no other cell is assigned. At the end every cell holds the value of its one
  assignment, whatever the array held on entry: \<open>res_arr[rank]\<close> holds \<open>msg_arr[rank]\<close>, and
  every other cell \<open>k\<close> holds the element at \<open>data_index\<close> of the message received in round
  \<open>(rank - k) mod num_proc\<close>, which is the round whose \<open>origin\<close> is \<open>k\<close>.
\<close>

theorem completeness_written_once:
  assumes "0 \<le> rank" "rank < num_proc"
    "int (length msg_arr) = num_proc" "int (length res0) = num_proc"
    "int (length buf0) = num_proc - 1" "int (length inbox) = num_proc - 1"
    "\<forall>k<length inbox. int (length (inbox ! k)) = num_proc - 1 - int k"
  shows "\<exists>st out. all_to_all_personalized wtime msg_arr res0 buf0 rank num_proc inbox
                     = Some (st, out) \<and>
           int (length (res_arr st)) = num_proc \<and>
           (\<forall>k. count_list (res_writes st) k = (if 0 \<le> k \<and> k < num_proc then 1 else 0)) \<and>
           (\<forall>k. 0 \<le> k \<and> k < num_proc \<longrightarrow>
                res_arr st ! nat k =
                  (if k = rank then msg_arr ! nat rank
                   else inbox ! nat ((rank - k) mod num_proc - 1)
                          ! nat (data_index rank num_proc ((rank - k) mod num_proc)))) \<and>
           (\<forall>k. 0 \<le> k \<and> k < num_proc \<and> k \<noteq> rank \<longrightarrow>
                1 \<le> (rank - k) mod num_proc \<and> (rank - k) mod num_proc < num_proc \<and>
                origin rank num_proc ((rank - k) mod num_proc) = k)"
proof -
  obtain p N where p: "rank = int p" and N: "num_proc = int N" and pN: "p < N"
    using assms(1,2) by (rule int_run_cases)
  have N0: "0 < N" using pN by simp
  have l: "length msg_arr = N" "length res0 = N" "length buf0 = N - 1" "length inbox = N - 1"
    using assms(3-6) pN unfolding N by simp_all
  have e: "\<forall>k<length inbox. length (inbox ! k) = N - 1 - k"
  proof (intro allI impI)
    fix k assume k: "k < length inbox"
    with assms(7) have "int (length (inbox ! k)) = int N - 1 - int k" unfolding N by blast
    moreover have "k < N - 1" using k l(4) by simp
    ultimately show "length (inbox ! k) = N - 1 - k" by simp
  qed
  obtain st out where
    r: "all_to_all_personalized wtime msg_arr res0 buf0 (int p) (int N) inbox = Some (st, out)"
    and lr: "length (res_arr st) = N"
    and v: "res_arr st ! p = msg_arr ! p"
    and w: "res_writes st = map (\<lambda>j. int ((N + p - j) mod N)) [0..<N]"
    using all_to_all_personalized_run [OF pN l e, of wtime] by auto
  have c: "\<forall>k. count_list (res_writes st) k = (if 0 \<le> k \<and> k < int N then 1 else 0)"
    unfolding w using origin_count [OF pN] by blast
  have hop: "1 \<le> (int p - int a) mod int N \<and> (int p - int a) mod int N < int N \<and>
             origin (int p) (int N) ((int p - int a) mod int N) = int a"
    if a: "a < N" "a \<noteq> p" for a
  proof -
    let ?j = "(N + p - a) mod N"
    have j: "0 < ?j" "?j < N" "(N + p - ?j) mod N = a" "int ?j = (int p - int a) mod int N"
      using hop_of_slot [OF pN a] by simp_all
    have "origin (int p) (int N) (int ?j) = int ((N + p - ?j) mod N)"
      using N0 j(2) by (intro origin_nat) simp_all
    then have o: "origin (int p) (int N) (int ?j) = int a" unfolding j(3) .
    have "1 \<le> int ?j" using j(1) by linarith
    moreover have "int ?j < int N" using j(2) by simp
    ultimately show ?thesis using o unfolding j(4) by blast
  qed
  have val: "res_arr st ! a = inbox ! nat ((int p - int a) mod int N - 1)
                ! nat (data_index (int p) (int N) ((int p - int a) mod int N))"
    if a: "a < N" "a \<noteq> p" for a
  proof -
    let ?j = "(N + p - a) mod N"
    have j: "0 < ?j" "?j < N" "int ?j = (int p - int a) mod int N"
      using hop_of_slot [OF pN a] by simp_all
    have d: "data_index (int p) (int N) (int ?j) = int (dindex p N ?j)"
      using N0 j(2) by (intro data_index_nat) simp_all
    have n: "nat (int ?j - 1) = ?j - 1" using j(1) by simp
    have "res_arr st ! a = inbox ! (?j - 1) ! dindex p N ?j"
      using pN l e r a by (rule all_to_all_personalized_res)
    also have "\<dots> = inbox ! nat (int ?j - 1) ! nat (data_index (int p) (int N) (int ?j))"
      unfolding d n by simp
    finally show ?thesis unfolding j(3) .
  qed
  have vals: "\<forall>k. 0 \<le> k \<and> k < int N \<longrightarrow>
                res_arr st ! nat k =
                  (if k = int p then msg_arr ! nat (int p)
                   else inbox ! nat ((int p - k) mod int N - 1)
                          ! nat (data_index (int p) (int N) ((int p - k) mod int N)))"
  proof (intro allI impI)
    fix k assume k: "0 \<le> k \<and> k < int N"
    then obtain a where a: "k = int a" by (auto dest: nonneg_int_cases)
    with k have aN: "a < N" by simp
    show "res_arr st ! nat k =
                  (if k = int p then msg_arr ! nat (int p)
                   else inbox ! nat ((int p - k) mod int N - 1)
                          ! nat (data_index (int p) (int N) ((int p - k) mod int N)))"
    proof (cases "a = p")
      case True
      then show ?thesis unfolding a using v by simp
    next
      case False
      then have "k \<noteq> int p" unfolding a by simp
      moreover have "res_arr st ! nat k = inbox ! nat ((int p - k) mod int N - 1)
                          ! nat (data_index (int p) (int N) ((int p - k) mod int N))"
        unfolding a nat_int by (rule val [OF aN False])
      ultimately show ?thesis by simp
    qed
  qed
  have hops: "\<forall>k. 0 \<le> k \<and> k < int N \<and> k \<noteq> int p \<longrightarrow>
                1 \<le> (int p - k) mod int N \<and> (int p - k) mod int N < int N \<and>
                origin (int p) (int N) ((int p - k) mod int N) = k"
  proof (intro allI impI)
    fix k assume k: "0 \<le> k \<and> k < int N \<and> k \<noteq> int p"
    then obtain a where a: "k = int a" by (auto dest: nonneg_int_cases)
    with k have "a < N" "a \<noteq> p" by simp_all
    then show "1 \<le> (int p - k) mod int N \<and> (int p - k) mod int N < int N \<and>
                origin (int p) (int N) ((int p - k) mod int N) = k"
      unfolding a by (rule hop)
  qed
  have lr': "int (length (res_arr st)) = int N" using lr by simp
  show ?thesis unfolding p N using r lr' c vals hops by blast
qed

theorem completeness_written_once_witness:
  "\<exists>st out. all_to_all_personalized (\<lambda>k. 0) [10, 20, 30] [0, 0, 0] [0, 0] 0 3 [[70, 80], [40]]
               = Some (st, out) \<and>
     length (res_arr st) = 3 \<and>
     count_list (res_writes st) 0 = 1 \<and> count_list (res_writes st) 1 = 1 \<and>
     count_list (res_writes st) 2 = 1 \<and> count_list (res_writes st) 3 = 0 \<and>
     res_arr st ! 0 = 10 \<and> res_arr st ! 1 = 40 \<and> res_arr st ! 2 = 70 \<and>
     origin 0 3 2 = 1 \<and> origin 0 3 1 = 2"
proof -
  let ?msg = "[10, 20, 30] :: int list"
  let ?inbox = "[[70, 80], [40]] :: int list list"
  have "\<exists>st out. all_to_all_personalized (\<lambda>k. 0) ?msg [0, 0, 0] [0, 0] 0 3 ?inbox
                     = Some (st, out) \<and>
           int (length (res_arr st)) = 3 \<and>
           (\<forall>k. count_list (res_writes st) k = (if 0 \<le> k \<and> k < 3 then 1 else 0)) \<and>
           (\<forall>k. 0 \<le> k \<and> k < 3 \<longrightarrow>
                res_arr st ! nat k =
                  (if k = 0 then ?msg ! nat 0
                   else ?inbox ! nat ((0 - k) mod 3 - 1)
                          ! nat (data_index 0 3 ((0 - k) mod 3)))) \<and>
           (\<forall>k. 0 \<le> k \<and> k < 3 \<and> k \<noteq> 0 \<longrightarrow>
                1 \<le> (0 - k) mod 3 \<and> (0 - k) mod 3 < 3 \<and>
                origin 0 3 ((0 - k) mod 3) = k)"
    by (rule completeness_written_once) (simp_all add: nth_Cons' less_Suc_eq)
  then obtain st out where
    r: "all_to_all_personalized (\<lambda>k. 0) ?msg [0, 0, 0] [0, 0] 0 3 ?inbox = Some (st, out)"
    and lr: "int (length (res_arr st)) = 3"
    and c: "\<And>k. count_list (res_writes st) k = (if 0 \<le> k \<and> k < 3 then 1 else 0)"
    and v: "\<And>k. 0 \<le> k \<and> k < 3 \<Longrightarrow>
                res_arr st ! nat k =
                  (if k = 0 then ?msg ! nat 0
                   else ?inbox ! nat ((0 - k) mod 3 - 1)
                          ! nat (data_index 0 3 ((0 - k) mod 3)))"
    and h: "\<And>k. 0 \<le> k \<and> k < 3 \<and> k \<noteq> 0 \<Longrightarrow>
                1 \<le> (0 - k) mod 3 \<and> (0 - k) mod 3 < 3 \<and>
                origin 0 3 ((0 - k) mod 3) = k"
    by blast
  have d1: "data_index 0 3 1 = 0" by (simp add: data_index_def origin_def c_mod_def c_div_def)
  have d2: "data_index 0 3 2 = 0" by (simp add: data_index_def origin_def c_mod_def c_div_def)
  have v0: "res_arr st ! 0 = 10" using v [of 0] by simp
  have v1: "res_arr st ! 1 = 40" using v [of 1] by (simp add: d2)
  have v2: "res_arr st ! 2 = 70" using v [of 2] by (simp add: d1)
  have o1: "origin 0 3 2 = 1" using h [of 1] by simp
  have o2: "origin 0 3 1 = 2" using h [of 2] by simp
  have l3: "length (res_arr st) = 3" using lr by simp
  show ?thesis using r l3 c [of 0] c [of 1] c [of 2] c [of 3] v0 v1 v2 o1 o2 by simp
qed

text \<open>
  Claim C6 (the extraction index stays in bounds). For \<open>0 \<le> rank < num_proc\<close> and a round
  \<open>1 \<le> i < num_proc\<close>, \<open>data_index\<close> is at least \<open>0\<close> and below \<open>num_proc - i\<close>, the length of
  the message of that round; the read at \<open>data_index\<close> is inside the received message, and
  the receive, the extraction and the compaction of the round go through without an access
  outside the arrays.
\<close>

theorem data_index_in_bounds:
  assumes "0 \<le> rank" "rank < num_proc" "1 \<le> i" "i < num_proc"
    "int (length (buf st)) = num_proc - 1" "int (length (res_arr st)) = num_proc"
    "int (length m) = msg_size num_proc i"
  shows "0 \<le> data_index rank num_proc i \<and> data_index rank num_proc i < msg_size num_proc i \<and>
         arr_read m (data_index rank num_proc i) \<noteq> None \<and>
         (\<exists>st'. round_recv wtime rank num_proc i m st = Some st')"
proof -
  obtain p N j where p: "rank = int p" and N: "num_proc = int N" and j: "i = int j"
    and r: "p < N" "0 < j" "j < N"
    using assms(1-4) by (rule int_rank_cases)
  have di: "data_index rank num_proc i = int (dindex p N j)"
    unfolding p N j using r by (intro data_index_nat) simp_all
  have ms: "msg_size num_proc i = int (N - j)"
    unfolding N j using r by (simp add: msg_size_def of_nat_diff)
  have lt: "dindex p N j < N - j" using r by (rule dindex_less)
  have lm: "length m = N - j" using assms(7) ms by simp
  have rd: "arr_read m (data_index rank num_proc i) \<noteq> None"
    using lt lm by (simp add: di arr_read_def)
  have a: "0 \<le> data_index rank num_proc i" by (simp add: di)
  have b: "data_index rank num_proc i < msg_size num_proc i" using lt by (simp add: di ms)
  have "\<exists>st'. round_recv wtime (int p) (int N) (int j) m st = Some st'"
    using round_recv_Some [of p N j st m wtime] r assms(5,6) lm N by simp
  then have c: "\<exists>st'. round_recv wtime rank num_proc i m st = Some st'"
    by (simp add: p N j)
  show ?thesis using a b rd c by blast
qed

theorem data_index_in_bounds_witness:
  "data_index 0 3 1 = 0 \<and> msg_size 3 1 = 2 \<and> arr_read [70, 80 :: int] (data_index 0 3 1) \<noteq> None \<and>
   (\<exists>st'. round_recv (\<lambda>k. 0) 0 3 1 [70, 80]
            \<lparr>buf = [20, 30], res_arr = [10, 0, 0], res_writes = [0], time_taken = 0, ticks = 2\<rparr>
          = Some st')"
proof -
  let ?st = "\<lparr>buf = [20, 30], res_arr = [10, 0, 0], res_writes = [0], time_taken = 0, ticks = 2\<rparr>"
  have "0 \<le> data_index 0 3 1 \<and> data_index 0 3 1 < msg_size 3 1 \<and>
         arr_read [70, 80 :: int] (data_index 0 3 1) \<noteq> None \<and>
         (\<exists>st'. round_recv (\<lambda>k. 0) 0 3 1 [70, 80] ?st = Some st')"
    by (rule data_index_in_bounds) (simp_all add: msg_size_def)
  moreover have "data_index 0 3 1 = 0" by (simp add: data_index_def origin_def c_mod_def c_div_def)
  moreover have "msg_size 3 1 = 2" by (simp add: msg_size_def)
  ultimately show ?thesis by simp
qed

text \<open>
  Claim C7 (compaction and buffer shrink law). First part: for an array of at least \<open>size\<close>
  cells and \<open>0 \<le> idx < size\<close>, \<open>compact_array\<close> returns, and the first \<open>size - 1\<close> cells are
  then the first \<open>size\<close> cells of before with the cell \<open>idx\<close> taken out, the others in their
  order. Second part: in round \<open>i\<close> a process sends \<open>num_proc - i\<close> elements; after it has
  received a message \<open>m\<close> of that round and compacted, what it sends in round \<open>i + 1\<close> is
  \<open>m\<close> without the element at \<open>data_index\<close>, which are \<open>num_proc - i - 1\<close> elements.
\<close>

theorem compaction_shrink_law:
  "(0 \<le> idx \<and> idx < sz \<and> sz \<le> int (length arr) \<longrightarrow>
      (\<exists>arr'. compact_array idx arr sz = Some arr' \<and> length arr' = length arr \<and>
         take (nat sz - 1) arr' = take (nat idx) arr @ drop (nat idx + 1) (take (nat sz) arr))) \<and>
   (0 \<le> rank \<and> rank < num_proc \<and> 1 \<le> i \<and> i < num_proc \<and>
    int (length (buf st)) = num_proc - 1 \<and> int (length (res_arr st)) = num_proc \<and>
    int (length m) = msg_size num_proc i \<longrightarrow>
      (\<exists>payload st1 st2 payload' st3.
         round_send wtime rank num_proc i st = Some (payload, st1) \<and>
         int (length payload) = num_proc - i \<and>
         round_recv wtime rank num_proc i m st1 = Some st2 \<and>
         round_send wtime rank num_proc (i + 1) st2 = Some (payload', st3) \<and>
         int (length payload') = num_proc - i - 1 \<and>
         payload' = take (nat (data_index rank num_proc i)) m
                    @ drop (nat (data_index rank num_proc i) + 1) m))"
proof (intro conjI impI)
  assume a: "0 \<le> idx \<and> idx < sz \<and> sz \<le> int (length arr)"
  then have c: "compact_array idx arr sz = Some (shift_left (nat idx) (nat sz) arr)"
    by (intro compact_array_shift) simp_all
  have "take (nat sz - 1) (shift_left (nat idx) (nat sz) arr)
        = take (nat idx) arr @ drop (Suc (nat idx)) (take (nat sz) arr)"
    by (rule take_shift_left) (use a in auto)
  with c show "\<exists>arr'. compact_array idx arr sz = Some arr' \<and> length arr' = length arr \<and>
         take (nat sz - 1) arr' = take (nat idx) arr @ drop (nat idx + 1) (take (nat sz) arr)"
    by simp
next
  assume a: "0 \<le> rank \<and> rank < num_proc \<and> 1 \<le> i \<and> i < num_proc \<and>
    int (length (buf st)) = num_proc - 1 \<and> int (length (res_arr st)) = num_proc \<and>
    int (length m) = msg_size num_proc i"
  then have r: "0 \<le> rank" "rank < num_proc" "1 \<le> i" "i < num_proc" by simp_all
  obtain p N j where q: "rank = int p" "num_proc = int N" "i = int j" "p < N" "0 < j" "j < N"
    using r by (rule int_rank_cases)
  have l: "length (buf st) = N - 1" "length (res_arr st) = N" "length m = N - j"
    using a q by (auto simp: msg_size_def)
  have di: "nat (data_index (int p) (int N) (int j)) = dindex p N j"
    using q by (simp add: data_index_nat)
  obtain payload st1 st2 payload' st3 where
    f: "round_send wtime (int p) (int N) (int j) st = Some (payload, st1)"
      "length payload = N - j"
      "round_recv wtime (int p) (int N) (int j) m st1 = Some st2"
      "round_send wtime (int p) (int N) (int j + 1) st2 = Some (payload', st3)"
      "length payload' = N - j - 1"
      "payload' = take (dindex p N j) m @ drop (dindex p N j + 1) m"
    using round_shrink [OF q(4-6) l, of wtime] by blast
  have g: "int (length payload) = int N - int j" "int (length payload') = int N - int j - 1"
    using f(2,5) q by simp_all
  show "\<exists>payload st1 st2 payload' st3.
         round_send wtime rank num_proc i st = Some (payload, st1) \<and>
         int (length payload) = num_proc - i \<and>
         round_recv wtime rank num_proc i m st1 = Some st2 \<and>
         round_send wtime rank num_proc (i + 1) st2 = Some (payload', st3) \<and>
         int (length payload') = num_proc - i - 1 \<and>
         payload' = take (nat (data_index rank num_proc i)) m
                    @ drop (nat (data_index rank num_proc i) + 1) m"
    unfolding q(1-3) di using f(1,3,4,6) g by blast
qed

theorem compaction_shrink_law_witness:
  "(\<exists>arr'. compact_array 1 [10, 20, 30, 40, 50] 4 = Some arr' \<and> length arr' = 5 \<and>
      take 3 arr' = [10, 30, 40]) \<and>
   (\<exists>payload st1 st2 payload' st3.
      round_send (\<lambda>k. 0) 2 4 1
        \<lparr>buf = [1, 2, 4], res_arr = [0, 0, 3, 0], res_writes = [2], time_taken = 0, ticks = 1\<rparr>
        = Some (payload, st1) \<and>
      length payload = 3 \<and>
      round_recv (\<lambda>k. 0) 2 4 1 [5, 7, 8] st1 = Some st2 \<and>
      round_send (\<lambda>k. 0) 2 4 2 st2 = Some (payload', st3) \<and>
      length payload' = 2 \<and> payload' = [5, 8])"
proof -
  let ?arr = "[10, 20, 30, 40, 50] :: int list"
  let ?st = "\<lparr>buf = [1, 2, 4], res_arr = [0, 0, 3, 0], res_writes = [2],
              time_taken = 0, ticks = 1\<rparr>"
  let ?m = "[5, 7, 8] :: int list"
  have di: "data_index 2 4 1 = 1"
    by (simp add: data_index_def origin_def c_mod_def c_div_def)
  have t: "(0 \<le> (1::int) \<and> (1::int) < 4 \<and> 4 \<le> int (length ?arr) \<longrightarrow>
      (\<exists>arr'. compact_array 1 ?arr 4 = Some arr' \<and> length arr' = length ?arr \<and>
         take (nat 4 - 1) arr' = take (nat 1) ?arr @ drop (nat 1 + 1) (take (nat 4) ?arr))) \<and>
   (0 \<le> (2::int) \<and> (2::int) < 4 \<and> 1 \<le> (1::int) \<and> (1::int) < 4 \<and>
    int (length (buf ?st)) = 4 - 1 \<and> int (length (res_arr ?st)) = 4 \<and>
    int (length ?m) = msg_size 4 1 \<longrightarrow>
      (\<exists>payload st1 st2 payload' st3.
         round_send (\<lambda>k. 0) 2 4 1 ?st = Some (payload, st1) \<and>
         int (length payload) = 4 - 1 \<and>
         round_recv (\<lambda>k. 0) 2 4 1 ?m st1 = Some st2 \<and>
         round_send (\<lambda>k. 0) 2 4 (1 + 1) st2 = Some (payload', st3) \<and>
         int (length payload') = 4 - 1 - 1 \<and>
         payload' = take (nat (data_index 2 4 1)) ?m @ drop (nat (data_index 2 4 1) + 1) ?m))"
    by (rule compaction_shrink_law)
  have h1: "0 \<le> (1::int) \<and> (1::int) < 4 \<and> 4 \<le> int (length ?arr)" by simp
  have h2: "0 \<le> (2::int) \<and> (2::int) < 4 \<and> 1 \<le> (1::int) \<and> (1::int) < 4 \<and>
    int (length (buf ?st)) = 4 - 1 \<and> int (length (res_arr ?st)) = 4 \<and>
    int (length ?m) = msg_size 4 1" by (simp add: msg_size_def)
  from t h1 have a: "\<exists>arr'. compact_array 1 ?arr 4 = Some arr' \<and> length arr' = length ?arr \<and>
         take (nat 4 - 1) arr' = take (nat 1) ?arr @ drop (nat 1 + 1) (take (nat 4) ?arr)"
    by blast
  from t h2 have b: "\<exists>payload st1 st2 payload' st3.
         round_send (\<lambda>k. 0) 2 4 1 ?st = Some (payload, st1) \<and>
         int (length payload) = 4 - 1 \<and>
         round_recv (\<lambda>k. 0) 2 4 1 ?m st1 = Some st2 \<and>
         round_send (\<lambda>k. 0) 2 4 (1 + 1) st2 = Some (payload', st3) \<and>
         int (length payload') = 4 - 1 - 1 \<and>
         payload' = take (nat (data_index 2 4 1)) ?m @ drop (nat (data_index 2 4 1) + 1) ?m"
    by blast
  from a obtain arr' where c: "compact_array 1 ?arr 4 = Some arr'"
    and cl: "length arr' = length ?arr"
    and ct: "take (nat 4 - 1) arr' = take (nat 1) ?arr @ drop (nat 1 + 1) (take (nat 4) ?arr)"
    by blast
  have "length arr' = 5" using cl by simp
  moreover have "take 3 arr' = [10, 30, 40]" using ct by simp
  ultimately have a': "\<exists>arr'. compact_array 1 ?arr 4 = Some arr' \<and> length arr' = 5 \<and>
      take 3 arr' = [10, 30, 40]" using c by blast
  from b have b': "\<exists>payload st1 st2 payload' st3.
      round_send (\<lambda>k. 0) 2 4 1 ?st = Some (payload, st1) \<and>
      length payload = 3 \<and>
      round_recv (\<lambda>k. 0) 2 4 1 [5, 7, 8] st1 = Some st2 \<and>
      round_send (\<lambda>k. 0) 2 4 2 st2 = Some (payload', st3) \<and>
      length payload' = 2 \<and> payload' = [5, 8]"
    unfolding di by simp
  from a' b' show ?thesis by blast
qed

text \<open>
  Claim C8 (timing contract), evaluated on a ring of three. With the readings of
  \<open>example_clock\<close> the call lasts 9 seconds from its first to its last reading, and the value
  returned is 105 seconds: line 101 subtracts, in the second round, the time accumulated so
  far from a reading of the clock. The value returned is then not a time spent inside the
  sends and receives.
\<close>

theorem time_taken_three_processes:
  "map_option (\<lambda>(st, out). time_taken st)
     (all_to_all_personalized example_clock [10, 20, 30] [0, 0, 0] [0, 0] 0 3 [[70, 80], [40]])
   = Some 105 \<and> example_clock 6 - example_clock 0 = 9"
  by code_simp

text \<open>
  Claim C9 (self-delivery). For every \<open>num_proc \<ge> 1\<close> and rank: after the initialisation,
  before any round, \<open>res_arr[rank] = msg_arr[rank]\<close> and this is the only assignment made so
  far; no round assigns \<open>res_arr[rank]\<close>, since \<open>origin\<close> differs from \<open>rank\<close> in every round;
  and at the end of the call the cell still holds \<open>msg_arr[rank]\<close>, assigned once.
\<close>

theorem self_delivery:
  assumes "0 \<le> rank" "rank < num_proc"
    "int (length msg_arr) = num_proc" "int (length res0) = num_proc"
    "int (length buf0) = num_proc - 1" "int (length inbox) = num_proc - 1"
    "\<forall>k<length inbox. int (length (inbox ! k)) = num_proc - 1 - int k"
  shows "(\<exists>st0. a2a_init wtime msg_arr res0 buf0 rank num_proc = Some st0 \<and>
            res_arr st0 ! nat rank = msg_arr ! nat rank \<and> res_writes st0 = [rank]) \<and>
         (\<forall>i. 1 \<le> i \<and> i < num_proc \<longrightarrow> origin rank num_proc i \<noteq> rank) \<and>
         (\<exists>st out. all_to_all_personalized wtime msg_arr res0 buf0 rank num_proc inbox
                     = Some (st, out) \<and>
            res_arr st ! nat rank = msg_arr ! nat rank \<and> count_list (res_writes st) rank = 1)"
proof (intro conjI)
  obtain p N where p: "rank = int p" and N: "num_proc = int N" and pN: "p < N"
    using assms(1,2) by (rule int_run_cases)
  have l: "length msg_arr = N" "length res0 = N" "length buf0 = N - 1"
    using assms(3-5) pN unfolding N by simp_all
  show "\<exists>st0. a2a_init wtime msg_arr res0 buf0 rank num_proc = Some st0 \<and>
            res_arr st0 ! nat rank = msg_arr ! nat rank \<and> res_writes st0 = [rank]"
    unfolding p N using a2a_init_Some [OF pN l, of wtime] pN l by simp
  show "\<forall>i. 1 \<le> i \<and> i < num_proc \<longrightarrow> origin rank num_proc i \<noteq> rank"
  proof (intro allI impI)
    fix i assume "1 \<le> i \<and> i < num_proc"
    then have i: "1 \<le> i" "i < num_proc" by simp_all
    obtain p' N' j where q: "rank = int p'" "num_proc = int N'" "i = int j"
      "p' < N'" "0 < j" "j < N'"
      using assms(1,2) i by (rule int_rank_cases)
    have "origin (int p') (int N') (int j) = int ((N' + p' - j) mod N')"
      using q by (intro origin_nat) simp_all
    moreover have "(N' + p' - j) mod N' \<noteq> p'" using q(4-6) by (rule origin_neq_rank)
    ultimately show "origin rank num_proc i \<noteq> rank" unfolding q by simp
  qed
  show "\<exists>st out. all_to_all_personalized wtime msg_arr res0 buf0 rank num_proc inbox
                     = Some (st, out) \<and>
            res_arr st ! nat rank = msg_arr ! nat rank \<and> count_list (res_writes st) rank = 1"
    using all_to_all_personalized_int [OF assms, of wtime] assms(1,2) by auto
qed

theorem self_delivery_witness:
  "(\<exists>st0. a2a_init (\<lambda>k. 0) [40, 50, 60] [0, 0, 0] [0, 0] 1 3 = Some st0 \<and>
      res_arr st0 ! 1 = 50 \<and> res_writes st0 = [1]) \<and>
   origin 1 3 1 \<noteq> 1 \<and> origin 1 3 2 \<noteq> 1 \<and>
   (\<exists>st out. all_to_all_personalized (\<lambda>k. 0) [40, 50, 60] [0, 0, 0] [0, 0] 1 3 [[20, 30], [70]]
               = Some (st, out) \<and>
      res_arr st ! 1 = 50 \<and> count_list (res_writes st) 1 = 1)"
proof -
  let ?m = "[40, 50, 60] :: int list"
  have "(\<exists>st0. a2a_init (\<lambda>k. 0) ?m [0, 0, 0] [0, 0] 1 3 = Some st0 \<and>
            res_arr st0 ! nat 1 = ?m ! nat 1 \<and> res_writes st0 = [1]) \<and>
         (\<forall>i. 1 \<le> i \<and> i < 3 \<longrightarrow> origin 1 3 i \<noteq> 1) \<and>
         (\<exists>st out. all_to_all_personalized (\<lambda>k. 0) ?m [0, 0, 0] [0, 0] 1 3 [[20, 30], [70]]
                     = Some (st, out) \<and>
            res_arr st ! nat 1 = ?m ! nat 1 \<and> count_list (res_writes st) 1 = 1)"
    by (rule self_delivery) (simp_all add: nth_Cons' less_Suc_eq)
  then show ?thesis by simp
qed

text \<open>
  Claim C10 (frame of \<open>compact_array\<close>). For \<open>0 \<le> idx < size\<close> and an array of at least
  \<open>size\<close> cells the call returns, the array keeps its length, every cell below \<open>idx\<close> and
  every cell at \<open>size - 1\<close> or beyond keeps its value, the cells \<open>idx, \<dots>, size - 2\<close> take
  the value of their right neighbour (so the cell \<open>size - 1\<close> is left as a stale copy of the
  old last element), and for \<open>idx = size - 1\<close> the array is unchanged.
\<close>

theorem compact_array_frame:
  assumes "0 \<le> idx" "idx < sz" "sz \<le> int (length arr)"
  shows "\<exists>arr'. compact_array idx arr sz = Some arr' \<and> length arr' = length arr \<and>
           (\<forall>k. k < length arr \<and> (int k < idx \<or> sz - 1 \<le> int k) \<longrightarrow> arr' ! k = arr ! k) \<and>
           (\<forall>k. idx \<le> int k \<and> int k < sz - 1 \<longrightarrow> arr' ! k = arr ! (k + 1)) \<and>
           (idx = sz - 1 \<longrightarrow> arr' = arr)"
proof -
  let ?a = "shift_left (nat idx) (nat sz) arr"
  have c: "compact_array idx arr sz = Some ?a"
    using assms by (rule compact_array_shift)
  have low: "?a ! k = arr ! k" if "k < length arr" "int k < idx \<or> sz - 1 \<le> int k" for k
    using that assms by (auto simp: nth_shift_left)
  have mid: "?a ! k = arr ! (k + 1)" if "idx \<le> int k" "int k < sz - 1" for k
  proof -
    have "k < length arr" using that assms by simp
    moreover have "nat idx \<le> k \<and> Suc k < nat sz" using that assms by auto
    ultimately show ?thesis by (simp add: nth_shift_left)
  qed
  have same: "?a = arr" if "idx = sz - 1"
    using that assms by (intro shift_left_id) simp
  show ?thesis using c low mid same by simp
qed

theorem compact_array_frame_witness:
  "\<exists>arr'. compact_array 1 [10, 20, 30, 40, 50] 4 = Some arr' \<and> length arr' = 5 \<and>
     arr' ! 0 = 10 \<and> arr' ! 1 = 30 \<and> arr' ! 2 = 40 \<and> arr' ! 3 = 40 \<and> arr' ! 4 = 50"
proof -
  let ?arr = "[10, 20, 30, 40, 50] :: int list"
  have "\<exists>arr'. compact_array 1 ?arr 4 = Some arr' \<and> length arr' = length ?arr \<and>
           (\<forall>k. k < length ?arr \<and> (int k < 1 \<or> 4 - 1 \<le> int k) \<longrightarrow> arr' ! k = ?arr ! k) \<and>
           (\<forall>k. 1 \<le> int k \<and> int k < 4 - 1 \<longrightarrow> arr' ! k = ?arr ! (k + 1)) \<and>
           (1 = (4::int) - 1 \<longrightarrow> arr' = ?arr)"
    by (rule compact_array_frame) simp_all
  then obtain arr' where c: "compact_array 1 ?arr 4 = Some arr'" and l: "length arr' = length ?arr"
    and f: "\<And>k. k < length ?arr \<and> (int k < 1 \<or> 4 - 1 \<le> int k) \<Longrightarrow> arr' ! k = ?arr ! k"
    and g: "\<And>k. 1 \<le> int k \<and> int k < 4 - 1 \<Longrightarrow> arr' ! k = ?arr ! (k + 1)"
    by blast
  have "arr' ! 0 = 10" using f [of 0] by simp
  moreover have "arr' ! 3 = 40" using f [of 3] by simp
  moreover have "arr' ! 4 = 50" using f [of 4] by simp
  moreover have "arr' ! 1 = 30" using g [of 1] by simp
  moreover have "arr' ! 2 = 40" using g [of 2] by simp
  ultimately show ?thesis using c l by simp
qed

end
